theory Spec2Isabelle
  imports Main "HOL-Library.Char_ord" "HOL-Library.List_Lexorder"
begin

section \<open>Python values used by the ingestion tools\<close>

text \<open>
  The two ingestion tools, \<^verbatim>\<open>download_ncei.py\<close> and \<^verbatim>\<open>download_storm_events.py\<close>,
  share one pipeline. File names are strings of code points below 256, compared and sorted
  by code point as Python compares \<^verbatim>\<open>str\<close> values.
\<close>

datatype py_error = ValueError | FileNotFoundError | OSError | TransferError

text \<open>
  The exceptions of a run: \<^verbatim>\<open>ValueError\<close> from \<^verbatim>\<open>int\<close>, \<^verbatim>\<open>FileNotFoundError\<close> from \<^verbatim>\<open>os.remove\<close>,
  \<open>OSError\<close> for whatever \<^verbatim>\<open>open\<close> raises, and \<open>TransferError\<close> for whatever \<^verbatim>\<open>ftp.retrbinary\<close>
  raises.
\<close>

definition is_digit :: "char \<Rightarrow> bool" where
  "is_digit c \<longleftrightarrow> c \<in> set ''0123456789''"

definition is_space :: "char \<Rightarrow> bool" where
  \<comment> \<open>the white space \<^verbatim>\<open>int\<close> skips at both ends of a string: tab, line feed, vertical tab,
      form feed, carriage return and space, and the two other white-space code points below
      256, \<^verbatim>\<open>U+0085\<close> and \<^verbatim>\<open>U+00A0\<close>. The separators \<^verbatim>\<open>U+001C\<close> to \<^verbatim>\<open>U+001F\<close> are not skipped.\<close>
  "is_space c \<longleftrightarrow>
     c \<in> set [CHR 0x09, CHR 0x0A, CHR 0x0B, CHR 0x0C, CHR 0x0D, CHR 0x20, CHR 0x85, CHR 0xA0]"

definition strip :: "string \<Rightarrow> string" where
  "strip s = rev (dropWhile is_space (rev (dropWhile is_space s)))"

definition digit_val :: "char \<Rightarrow> int" where
  "digit_val c = int (of_char c) - 48"

definition digits_val :: "string \<Rightarrow> int" where
  "digits_val s = foldl (\<lambda>n c. 10 * n + digit_val c) 0 (filter is_digit s)"

fun digits_ok :: "string \<Rightarrow> bool" where
  \<comment> \<open>decimal digits, single underscores allowed between two digits\<close>
  "digits_ok [] = False"
| "digits_ok [c] = is_digit c"
| "digits_ok (c # d # r) =
     (is_digit c \<and> (if d = CHR ''_'' then digits_ok r else digits_ok (d # r)))"

definition max_str_digits :: nat where
  \<comment> \<open>the interpreter's default limit on the number of digits \<^verbatim>\<open>int\<close> converts\<close>
  "max_str_digits = 4300"

definition py_int :: "string \<Rightarrow> py_error + int" where
  \<comment> \<open>\<^verbatim>\<open>int(s)\<close> for a string: white space stripped, an optional sign, decimal digits;
      anything else raises \<^verbatim>\<open>ValueError\<close>\<close>
  "py_int s =
     (let t = strip s;
          neg = (t \<noteq> [] \<and> hd t = CHR ''-'');
          body = (if t \<noteq> [] \<and> (hd t = CHR ''-'' \<or> hd t = CHR ''+'') then tl t else t)
      in if digits_ok body \<and> length (filter is_digit body) \<le> max_str_digits
         then Inr (if neg then - digits_val body else digits_val body)
         else Inl ValueError)"

definition truthy :: "int \<Rightarrow> bool" where
  \<comment> \<open>\<^verbatim>\<open>if n:\<close> for a Python integer\<close>
  "truthy n \<longleftrightarrow> n \<noteq> 0"

section \<open>Period keys of file names\<close>

definition prefix_year :: "string \<Rightarrow> py_error + int" where
  \<comment> \<open>\<^verbatim>\<open>int(f[:4])\<close>, the key of the since-year filter of \<^verbatim>\<open>download_ncei.py\<close>\<close>
  "prefix_year f = py_int (take 4 f)"

definition stem_year :: "string \<Rightarrow> py_error + int" where
  \<comment> \<open>\<^verbatim>\<open>int(f.split(".")[0])\<close>, the key of the watermark filter of \<^verbatim>\<open>download_ncei.py\<close>\<close>
  "stem_year f = py_int (takeWhile (\<lambda>c. c \<noteq> CHR ''.'') f)"

definition year_match :: "string \<Rightarrow> int option" where
  \<comment> \<open>the pattern \<^verbatim>\<open>_d(\d{4})_\<close> matched at the start of the string\<close>
  "year_match s =
     (if 7 \<le> length s \<and> s ! 0 = CHR ''_'' \<and> s ! 1 = CHR ''d''
         \<and> list_all is_digit (take 4 (drop 2 s)) \<and> s ! 6 = CHR ''_''
      then Some (digits_val (take 4 (drop 2 s))) else None)"

fun extract_year_from_filename :: "string \<Rightarrow> int option" where
  \<comment> \<open>\<^verbatim>\<open>re.search\<close>: the leftmost match, \<^verbatim>\<open>None\<close> when there is none\<close>
  "extract_year_from_filename [] = None"
| "extract_year_from_filename (c # r) =
     (case year_match (c # r) of
        Some y \<Rightarrow> Some y
      | None \<Rightarrow> extract_year_from_filename r)"

fun keep_from :: "(string \<Rightarrow> py_error + int) \<Rightarrow> int \<Rightarrow> string list \<Rightarrow> py_error + string list" where
  \<comment> \<open>the comprehension \<^verbatim>\<open>[f for f in files if int(key(f)) >= bound]\<close>: it raises at the
      first name whose key is not an integer\<close>
  "keep_from key bound [] = Inr []"
| "keep_from key bound (f # fs) =
     (case key f of
        Inl e \<Rightarrow> Inl e
      | Inr y \<Rightarrow>
          (case keep_from key bound fs of
             Inl e \<Rightarrow> Inl e
           | Inr r \<Rightarrow> Inr (if bound \<le> y then f # r else r)))"

definition storm_keep :: "int \<Rightarrow> string \<Rightarrow> bool" where
  \<comment> \<open>\<^verbatim>\<open>file_year and file_year >= bound\<close>\<close>
  "storm_keep bound f =
     (case extract_year_from_filename f of
        None \<Rightarrow> False
      | Some y \<Rightarrow> truthy y \<and> bound \<le> y)"

section \<open>The sink\<close>

text \<open>
  The sink is one table of a DuckDB database: \<open>None\<close> while the table does not exist, the
  list of its rows otherwise. A column that may hold \<^verbatim>\<open>NULL\<close> is an option. The statements
  the coordinator sends to the sink are taken to succeed; the handlers around them only log.
\<close>

type_synonym 'r sink = "'r list option"

definition sql_max :: "('a \<Rightarrow> 'a \<Rightarrow> bool) \<Rightarrow> 'a option list \<Rightarrow> 'a option" where
  \<comment> \<open>\<^verbatim>\<open>SELECT MAX(col)\<close>: \<^verbatim>\<open>NULL\<close>s are skipped, and the result is \<^verbatim>\<open>NULL\<close> when nothing is left\<close>
  "sql_max lt vs =
     foldl (\<lambda>acc v. case v of
                       None \<Rightarrow> acc
                     | Some x \<Rightarrow> (case acc of
                                    None \<Rightarrow> Some x
                                  | Some a \<Rightarrow> if lt a x then Some x else Some a))
           None vs"

record date =
  year :: int
  month :: int
  day :: int

definition date_less :: "date \<Rightarrow> date \<Rightarrow> bool" where
  "date_less a b \<longleftrightarrow>
     year a < year b \<or> (year a = year b \<and> (month a < month b \<or> (month a = month b \<and> day a < day b)))"

record ghcn_row =
  station :: string
  row_date :: "date option"
  element :: string
  data_value :: "int option"

record storm_row =
  BEGIN_YEARMONTH :: "int option"
  YEAR :: "int option"
  EVENT_ID :: "int option"

definition ncei_max_date :: "ghcn_row sink \<Rightarrow> date option" where
  \<comment> \<open>\<^verbatim>\<open>download_ncei.py\<close>, lines 30 to 55\<close>
  "ncei_max_date snk =
     (case snk of
        None \<Rightarrow> None
      | Some rows \<Rightarrow> sql_max date_less (map row_date rows))"

definition in_year :: "int \<Rightarrow> ghcn_row \<Rightarrow> bool" where
  \<comment> \<open>\<^verbatim>\<open>EXTRACT(YEAR FROM date) = max_year\<close>\<close>
  "in_year y r = (case row_date r of None \<Rightarrow> False | Some d \<Rightarrow> year d = y)"

definition ncei_truncate :: "int \<Rightarrow> ghcn_row sink \<Rightarrow> ghcn_row sink" where
  \<comment> \<open>\<^verbatim>\<open>download_ncei.py\<close>, lines 83 to 112\<close>
  "ncei_truncate max_year snk =
     (case snk of
        None \<Rightarrow> None
      | Some rows \<Rightarrow>
          if 0 < length (filter (in_year max_year) rows)
          then Some (filter (\<lambda>r. \<not> in_year max_year r) rows)
          else Some rows)"

definition ncei_prepare ::
  "ghcn_row sink \<Rightarrow> string list \<Rightarrow> int option \<Rightarrow> ghcn_row sink \<times> (py_error + string list)" where
  \<comment> \<open>\<^verbatim>\<open>download_and_process_files\<close> of \<^verbatim>\<open>download_ncei.py\<close> up to line 121: the sink and
      the candidate list the pipeline starts from, or the error the run ends with\<close>
  "ncei_prepare snk listing since_year =
     (let max_date = ncei_max_date snk;
          files = sort listing;
          files1 = (case since_year of
                      None \<Rightarrow> Inr files
                    | Some y \<Rightarrow> if truthy y then keep_from prefix_year y files else Inr files)
      in case files1 of
           Inl e \<Rightarrow> (snk, Inl e)
         | Inr fs \<Rightarrow>
             (case max_date of
                None \<Rightarrow> (snk, Inr fs)
              | Some d \<Rightarrow>
                  (let max_year = year d;
                       snk' = ncei_truncate max_year snk
                   in (snk', keep_from stem_year max_year fs))))"

definition storm_max_date :: "storm_row sink \<Rightarrow> int option" where
  \<comment> \<open>\<^verbatim>\<open>download_storm_events.py\<close>, lines 104 to 129\<close>
  "storm_max_date snk =
     (case snk of
        None \<Rightarrow> None
      | Some rows \<Rightarrow> sql_max (<) (map BEGIN_YEARMONTH rows))"

definition storm_truncate :: "int \<Rightarrow> storm_row sink \<Rightarrow> storm_row sink" where
  \<comment> \<open>\<^verbatim>\<open>download_storm_events.py\<close>, lines 163 to 193\<close>
  "storm_truncate max_year snk =
     (case snk of
        None \<Rightarrow> None
      | Some rows \<Rightarrow>
          if 0 < length (filter (\<lambda>r. YEAR r = Some max_year) rows)
          then Some (filter (\<lambda>r. YEAR r \<noteq> Some max_year) rows)
          else Some rows)"

definition storm_prepare ::
  "storm_row sink \<Rightarrow> string list \<Rightarrow> int option \<Rightarrow> storm_row sink \<times> string list" where
  \<comment> \<open>\<^verbatim>\<open>download_and_process_files\<close> of \<^verbatim>\<open>download_storm_events.py\<close> up to line 208\<close>
  "storm_prepare snk listing since_year =
     (let max_date = storm_max_date snk;
          files = sort listing;
          files1 = (case since_year of
                      None \<Rightarrow> files
                    | Some y \<Rightarrow> if truthy y then filter (storm_keep y) files else files)
      in case max_date of
           None \<Rightarrow> (snk, files1)
         | Some m \<Rightarrow>
             if truthy m
             then (let max_year = m div 100
                   in if truthy max_year
                      then (storm_truncate max_year snk, filter (storm_keep max_year) files1)
                      else (snk, files1))
             else (snk, files1))"

definition storm_period :: "storm_row \<Rightarrow> int option" where
  \<comment> \<open>the year of a row's \<^verbatim>\<open>BEGIN_YEARMONTH\<close>, taken as the tool takes the year of the
      watermark: \<^verbatim>\<open>// 100\<close>\<close>
  "storm_period r = map_option (\<lambda>b. b div 100) (BEGIN_YEARMONTH r)"


section \<open>The pipeline: Fetcher, transfer channel and Loader\<close>

text \<open>
  The Fetcher thread (\<^verbatim>\<open>download_files\<close>) and the Loader (the \<^verbatim>\<open>while True\<close> loop of the main
  thread) run concurrently and share the queue, the stop event and the staging directory.
  The pipeline is a state machine: each thread has a program counter, one step of a thread
  is one statement between two points where the other thread can be observed, and a run is
  a list of actors saying whose turn it is. A step of a thread that is blocked (a \<^verbatim>\<open>put\<close> on
  a full queue) changes nothing. The Loader being scheduled while it polls an empty queue is
  the poll timing out. The interrupt signal can arrive at any point of a run.
\<close>

datatype transfer_item = StagedFile string string | EndOfFiles

datatype tool = NCEI | StormEvents

record 'r env =
  tool :: tool
  temp_dir :: string
  open_ok :: "string \<Rightarrow> bool"
  transfer_ok :: "string \<Rightarrow> bool"
  parse :: "string \<Rightarrow> 'r list option"

text \<open>
  The environment of a run: which tool runs, the staging directory, the paths at which the
  operating system lets \<^verbatim>\<open>open(path, "wb")\<close> create a file once the directory of the path is
  there (permissions, name length, space), the files for which \<^verbatim>\<open>ftp.retrbinary\<close> completes
  rather than raises, and the rows the sink reads from the staged file of a listed name
  (\<open>None\<close> when the insert raises, as for a corrupt file).
\<close>

definition join :: "string \<Rightarrow> string \<Rightarrow> string" where
  \<comment> \<open>\<^verbatim>\<open>os.path.join(a, b)\<close> on POSIX: an absolute \<open>b\<close> discards \<open>a\<close>\<close>
  "join a b =
     (if b \<noteq> [] \<and> hd b = CHR ''/'' then b
      else if a = [] \<or> last a = CHR ''/'' then a @ b
      else a @ ''/'' @ b)"

definition temp_file_path :: "'r env \<Rightarrow> string \<Rightarrow> string" where
  \<comment> \<open>\<^verbatim>\<open>os.path.join(temp_dir, filename)\<close>\<close>
  "temp_file_path env filename = join (temp_dir env) filename"

text \<open>
  Where a path leads. The staging directory is created empty by \<^verbatim>\<open>TemporaryDirectory\<close> and
  only this run writes to it, so it holds regular files and no directory. A path below it
  is followed one component at a time: an empty component and \<^verbatim>\<open>.\<close> stay where they are,
  \<^verbatim>\<open>..\<close> leaves the staging directory, and any other component that is not the last would
  have to be a directory. A last component that is a name is an entry of the staging
  directory; a path that ends at a directory cannot be opened for writing. A path that
  leaves the staging directory, or never enters it, is taken not to lead back into it (the
  name of the directory is drawn at random after the listing was read), and two such paths
  are the same file when they are the same string.
\<close>

fun split_on :: "char \<Rightarrow> string \<Rightarrow> string list" where
  \<comment> \<open>\<^verbatim>\<open>s.split(sep)\<close> for a separator of one character\<close>
  "split_on sep [] = [[]]"
| "split_on sep (c # r) =
     (case split_on sep r of
        [] \<Rightarrow> [[c]]
      | x # xs \<Rightarrow> if c = sep then [] # x # xs else (c # x) # xs)"

datatype place = InStaging string | Elsewhere | NoPlace

fun walk :: "string list \<Rightarrow> place" where
  "walk [] = NoPlace"
| "walk [c] = (if c = [] \<or> c = ''.'' \<or> c = ''..'' then NoPlace else InStaging c)"
| "walk (c # d # r) =
     (if c = [] \<or> c = ''.'' then walk (d # r)
      else if c = ''..'' then Elsewhere
      else NoPlace)"

definition dir_prefix :: "'r env \<Rightarrow> string" where
  \<comment> \<open>the staging directory with its trailing separator\<close>
  "dir_prefix env = join (temp_dir env) []"

definition place :: "'r env \<Rightarrow> string \<Rightarrow> place" where
  "place env p =
     (let d = dir_prefix env
      in if take (length d) p = d \<and> (d \<noteq> [] \<or> p = [] \<or> hd p \<noteq> CHR ''/'')
         then walk (split_on CHR ''/'' (drop (length d) p))
         else Elsewhere)"

definition file_at :: "'r env \<Rightarrow> string \<Rightarrow> string" where
  \<comment> \<open>the file a path names: the entry of the staging directory under its plain path, or
      the path itself\<close>
  "file_at env p = (case place env p of InStaging c \<Rightarrow> dir_prefix env @ c | _ \<Rightarrow> p)"

definition inside :: "'r env \<Rightarrow> string \<Rightarrow> bool" where
  "inside env p \<longleftrightarrow> (case place env p of InStaging c \<Rightarrow> True | _ \<Rightarrow> False)"

definition stage_file :: "'r env \<Rightarrow> string \<Rightarrow> string" where
  \<comment> \<open>the file a listed name is staged at\<close>
  "stage_file env filename = file_at env (temp_file_path env filename)"

definition staged :: "'r env \<Rightarrow> string \<Rightarrow> transfer_item" where
  "staged env filename = StagedFile filename (temp_file_path env filename)"

datatype fetcher_pc =
    FNext "string list"
  | FOpen string "string list"
  | FRetr string "string list"
  | FCheck string "string list"
  | FPut string "string list"
  | FFinally
  | FDone

text \<open>
  The program counter of \<^verbatim>\<open>download_files\<close>: \<open>FNext fs\<close> at the head of the \<^verbatim>\<open>for\<close> loop with
  \<open>fs\<close> still to come, \<open>FOpen\<close> before \<^verbatim>\<open>open\<close>, \<open>FRetr\<close> before \<^verbatim>\<open>retrbinary\<close>, \<open>FCheck\<close> at
  the second test of the stop event, \<open>FPut\<close> at \<^verbatim>\<open>file_queue.put((filename, temp_file_path))\<close>,
  \<open>FFinally\<close> at \<^verbatim>\<open>file_queue.put(None)\<close>, \<open>FDone\<close> when the thread has ended.
\<close>

datatype loader_pc =
    LGet
  | LEmpty
  | LLoad string string
  | LFinally string string
  | LExit
  | LRaised

text \<open>
  The program counter of the Loader: \<open>LGet\<close> at \<^verbatim>\<open>file_queue.get(timeout=1.0)\<close>, \<open>LEmpty\<close> in
  the handler of \<^verbatim>\<open>queue.Empty\<close> before the stop event is read, \<open>LLoad\<close> at the \<^verbatim>\<open>try\<close> block
  that inserts the file, \<open>LFinally\<close> at its \<^verbatim>\<open>finally\<close> clause, \<open>LExit\<close> after the loop and
  the \<^verbatim>\<open>with\<close> block, \<open>LRaised\<close> when \<^verbatim>\<open>os.remove\<close> raised out of the loop.
\<close>

record 'r state =
  fetcher :: fetcher_pc
  fetcher_error :: "py_error option"
  loader :: loader_pc
  file_queue :: "transfer_item list"
  stop_event :: bool
  staging :: "string list"
  dir_exists :: bool
  sink :: "'r sink"
  pushed :: "transfer_item list"
  created :: "string list"
  removed :: "string list"
  attempted :: "string list"
  loaded :: "string list"
  errored :: "string list"
  finished :: "string list"

text \<open>
  Besides the program counters, the queue, the stop event, the staged files present on disk
  (\<open>staging\<close>), whether the staging directory still exists and the sink, a state records what
  has happened so far: the items put on the queue, the files opened for writing, the files
  removed, the file names whose insert was attempted, succeeded (\<open>loaded\<close>) or was logged as
  an error (\<open>errored\<close>), and the file names reported as deleted and done (\<open>finished\<close>).
\<close>

definition maxsize :: nat where
  "maxsize = 2"

definition has_room :: "'r state \<Rightarrow> bool" where
  "has_room s \<longleftrightarrow> length (file_queue s) < maxsize"

definition raise_in_try :: "py_error \<Rightarrow> 'r state \<Rightarrow> 'r state" where
  \<comment> \<open>an exception inside the \<^verbatim>\<open>try\<close> of \<^verbatim>\<open>download_files\<close>: control passes to \<^verbatim>\<open>finally\<close>\<close>
  "raise_in_try e s = s\<lparr>fetcher := FFinally, fetcher_error := Some e\<rparr>"

definition can_open :: "'r env \<Rightarrow> 'r state \<Rightarrow> string \<Rightarrow> bool" where
  \<comment> \<open>whether \<^verbatim>\<open>open(path, "wb")\<close> returns a file rather than raises\<close>
  "can_open env s p \<longleftrightarrow>
     (case place env p of
        InStaging c \<Rightarrow> dir_exists s
      | Elsewhere \<Rightarrow> True
      | NoPlace \<Rightarrow> False)
     \<and> open_ok env p"

definition fetcher_step :: "'r env \<Rightarrow> 'r state \<Rightarrow> 'r state" where
  "fetcher_step env s =
     (case fetcher s of
        FNext [] \<Rightarrow> s\<lparr>fetcher := FFinally\<rparr>
      | FNext (f # fs) \<Rightarrow>
          if stop_event s then s\<lparr>fetcher := FFinally\<rparr> else s\<lparr>fetcher := FOpen f fs\<rparr>
      | FOpen f fs \<Rightarrow>
          if can_open env s (temp_file_path env f)
          then s\<lparr>staging := List.insert (stage_file env f) (staging s),
                 created := created s @ [stage_file env f],
                 fetcher := FRetr f fs\<rparr>
          else raise_in_try OSError s
      | FRetr f fs \<Rightarrow>
          if transfer_ok env f then s\<lparr>fetcher := FCheck f fs\<rparr>
          else raise_in_try TransferError s
      | FCheck f fs \<Rightarrow>
          if stop_event s
          then (if stage_file env f \<in> set (staging s)
                then s\<lparr>staging := removeAll (stage_file env f) (staging s),
                       removed := removed s @ [stage_file env f],
                       fetcher := FFinally\<rparr>
                else raise_in_try FileNotFoundError s)
          else s\<lparr>fetcher := FPut f fs\<rparr>
      | FPut f fs \<Rightarrow>
          if has_room s
          then s\<lparr>file_queue := file_queue s @ [staged env f],
                 pushed := pushed s @ [staged env f],
                 fetcher := FNext fs\<rparr>
          else s
      | FFinally \<Rightarrow>
          if has_room s
          then s\<lparr>file_queue := file_queue s @ [EndOfFiles],
                 pushed := pushed s @ [EndOfFiles],
                 fetcher := FDone\<rparr>
          else s
      | FDone \<Rightarrow> s)"

definition insert_file :: "tool \<Rightarrow> 'r list option \<Rightarrow> 'r sink \<Rightarrow> 'r sink \<times> bool" where
  \<comment> \<open>the body of the Loader's \<^verbatim>\<open>try\<close>: the sink afterwards, and whether it ended without an
      exception. The NCEI tool creates the table first when it is missing; the storm-events
      tool counts the rows of a table that was created before the threads started.\<close>
  "insert_file t content snk =
     (case t of
        NCEI \<Rightarrow>
          (let rows = (case snk of None \<Rightarrow> [] | Some rs \<Rightarrow> rs)
           in case content of
                None \<Rightarrow> (Some rows, False)
              | Some new \<Rightarrow> (Some (rows @ new), True))
      | StormEvents \<Rightarrow>
          (case snk of
             None \<Rightarrow> (None, False)
           | Some rows \<Rightarrow>
               (case content of
                  None \<Rightarrow> (Some rows, False)
                | Some new \<Rightarrow> (Some (rows @ new), True))))"

definition leave_with :: "'r env \<Rightarrow> 'r state \<Rightarrow> 'r state" where
  \<comment> \<open>the end of the \<^verbatim>\<open>with tempfile.TemporaryDirectory()\<close> block: the directory and every
      file still in it are removed; a file staged outside the directory stays\<close>
  "leave_with env s =
     s\<lparr>removed := removed s @ filter (inside env) (staging s),
       staging := filter (\<lambda>p. \<not> inside env p) (staging s),
       dir_exists := False\<rparr>"

definition loader_step :: "'r env \<Rightarrow> 'r state \<Rightarrow> 'r state" where
  "loader_step env s =
     (case loader s of
        LGet \<Rightarrow>
          (case file_queue s of
             [] \<Rightarrow> s\<lparr>loader := LEmpty\<rparr>
           | EndOfFiles # q \<Rightarrow> leave_with env (s\<lparr>file_queue := q, loader := LExit\<rparr>)
           | StagedFile f p # q \<Rightarrow> s\<lparr>file_queue := q, loader := LLoad f p\<rparr>)
      | LEmpty \<Rightarrow>
          if stop_event s then leave_with env (s\<lparr>loader := LExit\<rparr>) else s\<lparr>loader := LGet\<rparr>
      | LLoad f p \<Rightarrow>
          (let content = (if file_at env p \<in> set (staging s) then parse env f else None);
               result = insert_file (tool env) content (sink s)
           in s\<lparr>sink := fst result,
                 attempted := attempted s @ [f],
                 loaded := (if snd result then loaded s @ [f] else loaded s),
                 errored := (if snd result then errored s else errored s @ [f]),
                 loader := LFinally f p\<rparr>)
      | LFinally f p \<Rightarrow>
          if file_at env p \<in> set (staging s)
          then s\<lparr>staging := removeAll (file_at env p) (staging s),
                 removed := removed s @ [file_at env p],
                 finished := finished s @ [f],
                 loader := LGet\<rparr>
          else leave_with env (s\<lparr>loader := LRaised\<rparr>)
      | LExit \<Rightarrow> s
      | LRaised \<Rightarrow> s)"

datatype actor = Fetcher | Loader | Interrupt

definition step :: "'r env \<Rightarrow> 'r state \<Rightarrow> actor \<Rightarrow> 'r state" where
  "step env s a =
     (case a of
        Fetcher \<Rightarrow> fetcher_step env s
      | Loader \<Rightarrow> loader_step env s
      | Interrupt \<Rightarrow> s\<lparr>stop_event := True\<rparr>)"

definition run :: "'r env \<Rightarrow> actor list \<Rightarrow> 'r state \<Rightarrow> 'r state" where
  "run env sched s = foldl (step env) s sched"

definition init :: "'r env \<Rightarrow> 'r sink \<Rightarrow> string list \<Rightarrow> 'r state" where
  \<comment> \<open>the state in which the threads start, from the sink and the candidate list the
      coordinator prepared; the storm-events tool creates its table here\<close>
  "init env snk files =
     \<lparr>fetcher = FNext files, fetcher_error = None, loader = LGet, file_queue = [],
      stop_event = False, staging = [], dir_exists = True,
      sink = (case tool env of
                NCEI \<Rightarrow> snk
              | StormEvents \<Rightarrow> (case snk of None \<Rightarrow> Some [] | Some rs \<Rightarrow> Some rs)),
      pushed = [], created = [], removed = [], attempted = [], loaded = [], errored = [],
      finished = []\<rparr>"

definition ncei_tool ::
  "ghcn_row env \<Rightarrow> ghcn_row sink \<Rightarrow> string list \<Rightarrow> int option \<Rightarrow> actor list
     \<Rightarrow> py_error + ghcn_row state" where
  \<comment> \<open>\<^verbatim>\<open>download_and_process_files\<close> of \<^verbatim>\<open>download_ncei.py\<close>: the coordinator, then the
      pipeline under a schedule; \<open>Inl\<close> when a filter raised before the pipeline started\<close>
  "ncei_tool env snk listing since_year sched =
     (case ncei_prepare snk listing since_year of
        (snk', Inl e) \<Rightarrow> Inl e
      | (snk', Inr files) \<Rightarrow> Inr (run env sched (init env snk' files)))"

definition storm_tool ::
  "storm_row env \<Rightarrow> storm_row sink \<Rightarrow> string list \<Rightarrow> int option \<Rightarrow> actor list
     \<Rightarrow> storm_row state" where
  \<comment> \<open>\<^verbatim>\<open>download_and_process_files\<close> of \<^verbatim>\<open>download_storm_events.py\<close>\<close>
  "storm_tool env snk listing since_year sched =
     (case storm_prepare snk listing since_year of
        (snk', files) \<Rightarrow> run env sched (init env snk' files))"

section \<open>What a run has done: projections and invariants\<close>

text \<open>
  The functions below read a program counter or a queue: the names and the paths of the
  staged files in a list of transfer items, the files the Fetcher still has to deal with,
  the file it has opened, the file the Loader holds. The predicates are the invariants of
  the pipeline, each preserved by every step of every actor.
\<close>

fun item_names :: "transfer_item list \<Rightarrow> string list" where
  "item_names [] = []"
| "item_names (StagedFile f p # r) = f # item_names r"
| "item_names (EndOfFiles # r) = item_names r"

fun item_paths :: "transfer_item list \<Rightarrow> string list" where
  "item_paths [] = []"
| "item_paths (StagedFile f p # r) = p # item_paths r"
| "item_paths (EndOfFiles # r) = item_paths r"

fun in_loop :: "fetcher_pc \<Rightarrow> bool" where
  "in_loop FFinally = False"
| "in_loop FDone = False"
| "in_loop _ = True"

fun todo :: "fetcher_pc \<Rightarrow> string list" where
  "todo (FNext fs) = fs"
| "todo (FOpen f fs) = f # fs"
| "todo (FRetr f fs) = f # fs"
| "todo (FCheck f fs) = f # fs"
| "todo (FPut f fs) = f # fs"
| "todo FFinally = []"
| "todo FDone = []"

fun unopened :: "fetcher_pc \<Rightarrow> string list" where
  "unopened (FNext fs) = fs"
| "unopened (FOpen f fs) = f # fs"
| "unopened (FRetr f fs) = fs"
| "unopened (FCheck f fs) = fs"
| "unopened (FPut f fs) = fs"
| "unopened FFinally = []"
| "unopened FDone = []"

definition push_inv :: "'r env \<Rightarrow> string list \<Rightarrow> 'r state \<Rightarrow> bool" where
  "push_inv env files s \<longleftrightarrow>
     (\<exists>pre rest. files = pre @ rest
        \<and> pushed s = map (staged env) pre @ (if fetcher s = FDone then [EndOfFiles] else [])
        \<and> (in_loop (fetcher s) \<longrightarrow> rest = todo (fetcher s)))"

definition created_inv :: "'r env \<Rightarrow> string list \<Rightarrow> 'r state \<Rightarrow> bool" where
  "created_inv env files s \<longleftrightarrow>
     (\<exists>pre rest. files = pre @ rest
        \<and> created s = map (stage_file env) pre
        \<and> (in_loop (fetcher s) \<longrightarrow> rest = unopened (fetcher s)))"

fun opened :: "fetcher_pc \<Rightarrow> string list" where
  "opened (FRetr f fs) = [f]"
| "opened (FCheck f fs) = [f]"
| "opened (FPut f fs) = [f]"
| "opened _ = []"

fun loader_paths :: "loader_pc \<Rightarrow> string list" where
  "loader_paths (LLoad f p) = [p]"
| "loader_paths (LFinally f p) = [p]"
| "loader_paths _ = []"

fun inflight :: "loader_pc \<Rightarrow> string list" where
  "inflight (LLoad f p) = [f]"
| "inflight _ = []"

definition leftover :: "'r state \<Rightarrow> string list" where
  \<comment> \<open>the file a failed transfer leaves behind: \<^verbatim>\<open>retrbinary\<close> raised and nothing removes the
      file before the staging directory goes\<close>
  "leftover s =
     (if fetcher_error s = Some TransferError \<and> created s \<noteq> [] then [last (created s)] else [])"

definition held :: "'r env \<Rightarrow> 'r state \<Rightarrow> string list" where
  \<comment> \<open>the files of the staged items in the queue, of the item the Loader works on, and of
      the download the Fetcher is in\<close>
  "held env s =
     map (file_at env) (item_paths (file_queue s) @ loader_paths (loader s))
     @ map (stage_file env) (opened (fetcher s))"

definition bound_inv :: "'r env \<Rightarrow> 'r state \<Rightarrow> bool" where
  "bound_inv env s \<longleftrightarrow>
     length (file_queue s) \<le> maxsize
     \<and> distinct (staging s)
     \<and> set (staging s) \<subseteq> set (held env s) \<union> set (leftover s)
     \<and> (\<forall>f. opened (fetcher s) = [f] \<longrightarrow>
            created s \<noteq> [] \<and> last (created s) = stage_file env f)
     \<and> (in_loop (fetcher s) \<longrightarrow> fetcher_error s = None)"

definition fifo_inv :: "'r state \<Rightarrow> bool" where
  "fifo_inv s \<longleftrightarrow>
     (\<exists>gone. pushed s = gone @ file_queue s
        \<and> item_names gone = attempted s @ inflight (loader s)
        \<and> (EndOfFiles \<in> set gone \<longrightarrow> loader s = LExit)
        \<and> (loader s = LExit \<longrightarrow> stop_event s \<or> EndOfFiles \<in> set gone)
        \<and> (\<forall>f p. loader s = LLoad f p \<or> loader s = LFinally f p \<longrightarrow>
               StagedFile f p \<in> set gone))"

definition store_inv :: "'r env \<Rightarrow> 'r state \<Rightarrow> bool" where
  "store_inv env s \<longleftrightarrow>
     distinct (staging s @ removed s)
     \<and> set (staging s) \<union> set (removed s) = set (created s)
     \<and> (dir_exists s \<longleftrightarrow> loader s \<noteq> LExit \<and> loader s \<noteq> LRaised)
     \<and> (\<not> dir_exists s \<longrightarrow> (\<forall>p \<in> set (staging s). \<not> inside env p))
     \<and> (dir_exists s \<longrightarrow> set (held env s) \<subseteq> set (staging s))
     \<and> stage_file env ` set (finished s) \<subseteq> set (removed s)
     \<and> loader s \<noteq> LRaised"

definition pipeline_inv :: "'r env \<Rightarrow> string list \<Rightarrow> 'r state \<Rightarrow> bool" where
  "pipeline_inv env files s \<longleftrightarrow>
     push_inv env files s \<and> created_inv env files s \<and> fifo_inv s \<and> bound_inv env s
     \<and> store_inv env s"

definition good :: "'r env \<Rightarrow> string \<Rightarrow> bool" where
  "good env f \<longleftrightarrow> parse env f \<noteq> None"

definition rows_of :: "'r list option \<Rightarrow> 'r list" where
  "rows_of x = (case x of None \<Rightarrow> [] | Some rs \<Rightarrow> rs)"

fun closing :: "loader_pc \<Rightarrow> string list" where
  "closing (LFinally f p) = [f]"
| "closing _ = []"

definition load_inv :: "'r env \<Rightarrow> 'r sink \<Rightarrow> 'r state \<Rightarrow> bool" where
  "load_inv env snk s \<longleftrightarrow>
     loaded s = filter (good env) (attempted s)
     \<and> errored s = filter (\<lambda>f. \<not> good env f) (attempted s)
     \<and> attempted s = finished s @ closing (loader s)
     \<and> (tool env = StormEvents \<longrightarrow> sink s \<noteq> None)
     \<and> rows_of (sink s) = rows_of snk @ concat (map (\<lambda>f. rows_of (parse env f)) (loaded s))"

definition sink_inv :: "'r env \<Rightarrow> 'r sink \<Rightarrow> 'r state \<Rightarrow> bool" where
  "sink_inv env snk s \<longleftrightarrow>
     (tool env = StormEvents \<longrightarrow> sink s \<noteq> None)
     \<and> set (loaded s) \<subseteq> set (attempted s)
     \<and> rows_of (sink s) = rows_of snk @ concat (map (\<lambda>f. rows_of (parse env f)) (loaded s))"

definition complete_inv :: "string list \<Rightarrow> 'r state \<Rightarrow> bool" where
  "complete_inv files s \<longleftrightarrow>
     (\<not> in_loop (fetcher s) \<and> \<not> stop_event s \<and> fetcher_error s = None \<longrightarrow>
        item_names (pushed s) = files)"





definition full_inv :: "'r env \<Rightarrow> string list \<Rightarrow> 'r sink \<Rightarrow> 'r state \<Rightarrow> bool" where
  "full_inv env files snk s \<longleftrightarrow>
     pipeline_inv env files s \<and> load_inv env snk s \<and> complete_inv files s"

text \<open>An environment for concrete runs: the NCEI tool, every transfer succeeds, and the
  file of 2021 is corrupt.\<close>

definition example_env :: "ghcn_row env" where
  "example_env =
     \<lparr>tool = NCEI, temp_dir = ''/tmp/stage'', open_ok = (\<lambda>p. True),
      transfer_ok = (\<lambda>f. True),
      parse = (\<lambda>f. if f = ''2021.csv.gz'' then None
                    else Some [\<lparr>station = ''S'',
                                row_date = Some \<lparr>year = 2020, month = 1, day = 1\<rparr>,
                                element = ''TMAX'', data_value = Some 1\<rparr>])\<rparr>"

text \<open>The same for the storm-events tool, every file empty.\<close>

definition storm_example_env :: "storm_row env" where
  "storm_example_env =
     \<lparr>tool = StormEvents, temp_dir = ''/tmp/stage'', open_ok = (\<lambda>p. True),
      transfer_ok = (\<lambda>f. True),
      parse = (\<lambda>f. Some [])\<rparr>"

section \<open>The coordinator: watermark, truncation and period filters\<close>

lemma keep_from_Inr:
  "keep_from key b fs = Inr r \<Longrightarrow> r = filter (\<lambda>f. \<exists>y. key f = Inr y \<and> b \<le> y) fs"
  by (induction fs arbitrary: r) (auto split: sum.splits)

lemma keep_from_set:
  "keep_from key b fs = Inr r \<Longrightarrow>
     f \<in> set r \<longleftrightarrow> f \<in> set fs \<and> (\<exists>y. key f = Inr y \<and> b \<le> y)"
  by (auto dest: keep_from_Inr)

lemma ncei_truncate_rows:
  "ncei_truncate w (Some rows) = Some (filter (\<lambda>r. \<not> in_year w r) rows)"
  by (auto simp: ncei_truncate_def filter_empty_conv intro!: filter_True [symmetric])

lemma storm_truncate_rows:
  "storm_truncate w (Some rows) = Some (filter (\<lambda>r. YEAR r \<noteq> Some w) rows)"
  by (auto simp: storm_truncate_def filter_empty_conv intro!: filter_True [symmetric])

lemma ncei_max_date_None [simp]: "ncei_max_date None = None"
  by (simp add: ncei_max_date_def)

lemma storm_max_date_None [simp]: "storm_max_date None = None"
  by (simp add: storm_max_date_def)

text \<open>
  Claim C10. A since-year of 0 switches the since-year filter off: in both tools the
  coordinator hands over the same sink and the same candidate list as when no since-year
  is given.
\<close>

theorem since_zero_is_unfiltered:
  "ncei_prepare snk listing (Some 0) = ncei_prepare snk listing None
   \<and> storm_prepare snk' listing' (Some 0) = storm_prepare snk' listing' None"
  by (simp add: ncei_prepare_def storm_prepare_def truthy_def)

lemma digit_val_range: "is_digit c \<Longrightarrow> 0 \<le> digit_val c \<and> digit_val c \<le> 9"
  by (auto simp: is_digit_def digit_val_def)

lemma digits_acc_nonneg:
  "list_all is_digit a \<Longrightarrow> 0 \<le> x \<Longrightarrow> 0 \<le> foldl (\<lambda>n c. 10 * n + digit_val c) x a"
proof (induction a arbitrary: x)
  case Nil
  then show ?case by simp
next
  case (Cons c a)
  have "0 \<le> 10 * x + digit_val c"
    using Cons.prems digit_val_range [of c] by simp
  then show ?case using Cons by simp
qed

lemma year_match_nonneg: "year_match s = Some y \<Longrightarrow> 0 \<le> y"
proof -
  assume a: "year_match s = Some y"
  then have d: "list_all is_digit (take 4 (drop 2 s))" and y: "y = digits_val (take 4 (drop 2 s))"
    by (auto simp: year_match_def split: if_splits)
  have "filter is_digit (take 4 (drop 2 s)) = take 4 (drop 2 s)"
    using d by (simp add: list_all_iff)
  then show ?thesis
    using digits_acc_nonneg [OF d, of 0] y by (simp add: digits_val_def)
qed

lemma extract_year_nonneg: "extract_year_from_filename f = Some y \<Longrightarrow> 0 \<le> y"
  by (induction f) (auto split: option.splits dest: year_match_nonneg)

text \<open>
  Claim C2, as stated, fails. In the NCEI tool the filters are comprehensions over \<^verbatim>\<open>int\<close>:
  with rows of 2020 in the sink, the listing below makes the watermark filter raise
  \<^verbatim>\<open>ValueError\<close> at the second name, so that there is no filtered list and the file of the
  watermark year 2020 is not retained. In the storm-events tool a filter that runs keeps a
  name only if its year is not 0: with the since-year \<open>-1\<close> the file of year 0 is dropped
  although 0 is not below \<open>-1\<close>. And a since-year of 0 drops nothing, not even a candidate
  whose key is below 0.
\<close>

theorem period_filter_counterexample:
  "ncei_max_date
      (Some [\<lparr>station = ''S'', row_date = Some \<lparr>year = 2020, month = 3, day = 1\<rparr>,
              element = ''TMAX'', data_value = Some 1\<rparr>])
     = Some \<lparr>year = 2020, month = 3, day = 1\<rparr>
   \<and> stem_year ''2020.csv.gz'' = Inr 2020
   \<and> stem_year ''latest.csv.gz'' = Inl ValueError
   \<and> snd (ncei_prepare
        (Some [\<lparr>station = ''S'', row_date = Some \<lparr>year = 2020, month = 3, day = 1\<rparr>,
                element = ''TMAX'', data_value = Some 1\<rparr>])
        [''2020.csv.gz'', ''latest.csv.gz''] None) = Inl ValueError
   \<and> extract_year_from_filename ''StormEvents_details-ftp_v1.0_d0000_c20250520.csv.gz''
       = Some 0
   \<and> storm_prepare None [''StormEvents_details-ftp_v1.0_d0000_c20250520.csv.gz''] (Some (- 1))
       = (None, [])
   \<and> prefix_year ''-001.csv.gz'' = Inr (- 1)
   \<and> ncei_prepare None [''-001.csv.gz''] (Some 0) = (None, Inr [''-001.csv.gz''])"
  by code_simp

text \<open>
  Claim C2, amended. Where every name has the period keys the filters read, a candidate is
  in the filtered list exactly when its key is not below the since-year (given and not 0)
  and not below the watermark year (when the sink has one); a key equal to the watermark
  year passes the watermark filter. In the storm-events tool this holds for every name with
  a year other than 0. In the NCEI tool it holds for every run whose filters raise no
  error, the since-year filter reading the first four characters of a name and the
  watermark filter the part before its first dot.
\<close>

theorem period_filter_exact:
  "(extract_year_from_filename f = Some y \<and> y \<noteq> 0 \<longrightarrow>
      (f \<in> set (snd (storm_prepare snk listing since)) \<longleftrightarrow>
         f \<in> set listing
         \<and> (\<forall>s. since = Some s \<longrightarrow> s \<le> y)
         \<and> (\<forall>m. storm_max_date snk = Some m \<longrightarrow> m div 100 \<le> y)))
   \<and> (snd (ncei_prepare snk' listing' since') = Inr fs \<longrightarrow>
      (g \<in> set fs \<longleftrightarrow>
         g \<in> set listing'
         \<and> (\<forall>s. since' = Some s \<longrightarrow> s \<noteq> 0 \<longrightarrow> (\<exists>y. prefix_year g = Inr y \<and> s \<le> y))
         \<and> (\<forall>d. ncei_max_date snk' = Some d \<longrightarrow> (\<exists>y. stem_year g = Inr y \<and> year d \<le> y))))"
proof (intro conjI impI)
  assume a: "extract_year_from_filename f = Some y \<and> y \<noteq> 0"
  then have p: "0 < y" using extract_year_nonneg [of f y] by simp
  show "f \<in> set (snd (storm_prepare snk listing since)) \<longleftrightarrow>
         f \<in> set listing
         \<and> (\<forall>s. since = Some s \<longrightarrow> s \<le> y)
         \<and> (\<forall>m. storm_max_date snk = Some m \<longrightarrow> m div 100 \<le> y)"
    using a p
    by (auto simp: storm_prepare_def storm_keep_def truthy_def Let_def
             split: option.splits)
next
  assume "snd (ncei_prepare snk' listing' since') = Inr fs"
  then show "g \<in> set fs \<longleftrightarrow>
         g \<in> set listing'
         \<and> (\<forall>s. since' = Some s \<longrightarrow> s \<noteq> 0 \<longrightarrow> (\<exists>y. prefix_year g = Inr y \<and> s \<le> y))
         \<and> (\<forall>d. ncei_max_date snk' = Some d \<longrightarrow> (\<exists>y. stem_year g = Inr y \<and> year d \<le> y))"
    by (auto simp: ncei_prepare_def truthy_def Let_def keep_from_set
             split: option.splits sum.splits if_splits)
qed

theorem period_filter_exact_witness:
  "extract_year_from_filename ''StormEvents_details-ftp_v1.0_d2024_c20250520.csv.gz'' = Some 2024
   \<and> storm_max_date
        (Some [\<lparr>BEGIN_YEARMONTH = Some 202412, YEAR = Some 2024, EVENT_ID = Some 7\<rparr>])
       = Some 202412
   \<and> ''StormEvents_details-ftp_v1.0_d2024_c20250520.csv.gz''
        \<in> set (snd (storm_prepare
                     (Some [\<lparr>BEGIN_YEARMONTH = Some 202412, YEAR = Some 2024, EVENT_ID = Some 7\<rparr>])
                     [''StormEvents_details-ftp_v1.0_d2023_c20250520.csv.gz'',
                      ''StormEvents_details-ftp_v1.0_d2024_c20250520.csv.gz'']
                     (Some 2020)))
   \<and> snd (ncei_prepare
            (Some [\<lparr>station = ''S'', row_date = Some \<lparr>year = 2020, month = 3, day = 1\<rparr>,
                    element = ''TMAX'', data_value = Some 1\<rparr>])
            [''2019.csv.gz'', ''2020.csv.gz''] None) = Inr [''2020.csv.gz'']
   \<and> stem_year ''2020.csv.gz'' = Inr 2020
   \<and> stem_year ''2019.csv.gz'' = Inr 2019"
proof -
  have h1: "extract_year_from_filename ''StormEvents_details-ftp_v1.0_d2024_c20250520.csv.gz''
            = Some 2024"
    by code_simp
  have h2: "storm_max_date
              (Some [\<lparr>BEGIN_YEARMONTH = Some 202412, YEAR = Some 2024, EVENT_ID = Some 7\<rparr>])
            = Some 202412"
    by code_simp
  have h3: "snd (ncei_prepare
            (Some [\<lparr>station = ''S'', row_date = Some \<lparr>year = 2020, month = 3, day = 1\<rparr>,
                    element = ''TMAX'', data_value = Some 1\<rparr>])
            [''2019.csv.gz'', ''2020.csv.gz''] None) = Inr [''2020.csv.gz'']"
    by code_simp
  have h4: "stem_year ''2020.csv.gz'' = Inr 2020" "stem_year ''2019.csv.gz'' = Inr 2019"
    by code_simp+
  have "''StormEvents_details-ftp_v1.0_d2024_c20250520.csv.gz''
        \<in> set (snd (storm_prepare
                     (Some [\<lparr>BEGIN_YEARMONTH = Some 202412, YEAR = Some 2024, EVENT_ID = Some 7\<rparr>])
                     [''StormEvents_details-ftp_v1.0_d2023_c20250520.csv.gz'',
                      ''StormEvents_details-ftp_v1.0_d2024_c20250520.csv.gz'']
                     (Some 2020)))"
    using h1 h2
      period_filter_exact [of "''StormEvents_details-ftp_v1.0_d2024_c20250520.csv.gz''" 2024
        "Some [\<lparr>BEGIN_YEARMONTH = Some 202412, YEAR = Some 2024, EVENT_ID = Some 7\<rparr>]"
        "[''StormEvents_details-ftp_v1.0_d2023_c20250520.csv.gz'',
          ''StormEvents_details-ftp_v1.0_d2024_c20250520.csv.gz'']"
        "Some 2020"
        "Some [\<lparr>station = ''S'', row_date = Some \<lparr>year = 2020, month = 3, day = 1\<rparr>,
                element = ''TMAX'', data_value = Some 1\<rparr>]"
        "[''2019.csv.gz'', ''2020.csv.gz'']" None "[''2020.csv.gz'']" "''2020.csv.gz''"]
    by simp
  then show ?thesis using h1 h2 h3 h4 by blast
qed




section \<open>Invariants of the pipeline\<close>

lemma push_inv_init: "push_inv env files (init env snk files)"
  by (simp add: push_inv_def init_def)

lemma created_inv_init: "created_inv env files (init env snk files)"
  by (simp add: created_inv_def init_def)

lemma push_inv_fetcher:
  assumes "push_inv env files s"
  shows "push_inv env files (fetcher_step env s)"
proof -
  from assms obtain pre rest where h: "files = pre @ rest"
    "pushed s = map (staged env) pre @ (if fetcher s = FDone then [EndOfFiles] else [])"
    "in_loop (fetcher s) \<longrightarrow> rest = todo (fetcher s)"
    unfolding push_inv_def by blast
  show ?thesis
  proof (cases "fetcher s")
    case (FNext fs)
    then show ?thesis using h
      by (cases fs) (auto simp: push_inv_def fetcher_step_def)
  next
    case (FOpen f fs)
    then show ?thesis using h
      by (auto simp: push_inv_def fetcher_step_def raise_in_try_def)
  next
    case (FRetr f fs)
    then show ?thesis using h
      by (auto simp: push_inv_def fetcher_step_def raise_in_try_def)
  next
    case (FCheck f fs)
    then show ?thesis using h
      by (auto simp: push_inv_def fetcher_step_def raise_in_try_def)
  next
    case (FPut f fs)
    then have "files = (pre @ [f]) @ fs" using h by simp
    then show ?thesis using FPut h unfolding push_inv_def fetcher_step_def
      by (auto intro!: exI [of _ "pre @ [f]"])
  next
    case FFinally
    then show ?thesis using h
      by (auto simp: push_inv_def fetcher_step_def)
  next
    case FDone
    then show ?thesis using h
      by (auto simp: push_inv_def fetcher_step_def)
  qed
qed

lemma created_inv_fetcher:
  assumes "created_inv env files s"
  shows "created_inv env files (fetcher_step env s)"
proof -
  from assms obtain pre rest where h: "files = pre @ rest"
    "created s = map (stage_file env) pre"
    "in_loop (fetcher s) \<longrightarrow> rest = unopened (fetcher s)"
    unfolding created_inv_def by blast
  show ?thesis
  proof (cases "fetcher s")
    case (FNext fs)
    then show ?thesis using h
      by (cases fs) (auto simp: created_inv_def fetcher_step_def)
  next
    case (FOpen f fs)
    show ?thesis
    proof (cases "can_open env s (temp_file_path env f)")
      case True
      have "files = (pre @ [f]) @ fs" using h FOpen by simp
      then show ?thesis using FOpen h True unfolding created_inv_def fetcher_step_def
        by (auto intro!: exI [of _ "pre @ [f]"])
    next
      case False
      then show ?thesis using FOpen h
        by (auto simp: created_inv_def fetcher_step_def raise_in_try_def)
    qed
  next
    case (FRetr f fs)
    then show ?thesis using h
      by (auto simp: created_inv_def fetcher_step_def raise_in_try_def)
  next
    case (FCheck f fs)
    then show ?thesis using h
      by (auto simp: created_inv_def fetcher_step_def raise_in_try_def)
  next
    case (FPut f fs)
    then show ?thesis using h
      by (auto simp: created_inv_def fetcher_step_def)
  next
    case FFinally
    then show ?thesis using h
      by (auto simp: created_inv_def fetcher_step_def)
  next
    case FDone
    then show ?thesis using h
      by (auto simp: created_inv_def fetcher_step_def)
  qed
qed

lemma loader_step_frame [simp]:
  "fetcher (loader_step env s) = fetcher s"
  "pushed (loader_step env s) = pushed s"
  "created (loader_step env s) = created s"
  "stop_event (loader_step env s) = stop_event s"
  by (cases "loader s"; cases "file_queue s"; cases "hd (file_queue s)";
      simp add: loader_step_def leave_with_def Let_def)+

lemma push_inv_step: "push_inv env files s \<Longrightarrow> push_inv env files (step env s a)"
  by (cases a) (simp_all add: step_def push_inv_fetcher, simp_all add: push_inv_def)

lemma created_inv_step: "created_inv env files s \<Longrightarrow> created_inv env files (step env s a)"
  by (cases a) (simp_all add: step_def created_inv_fetcher, simp_all add: created_inv_def)

lemma item_paths_append [simp]: "item_paths (xs @ ys) = item_paths xs @ item_paths ys"
  by (induction xs rule: item_paths.induct) simp_all

lemma item_names_append [simp]: "item_names (xs @ ys) = item_names xs @ item_names ys"
  by (induction xs rule: item_names.induct) simp_all

lemma length_item_paths: "length (item_paths xs) \<le> length xs"
  by (induction xs rule: item_paths.induct) simp_all

lemma bound_inv_init: "bound_inv env (init env snk files)"
  by (simp add: bound_inv_def init_def held_def leftover_def maxsize_def)

lemma bound_inv_fetcher:
  assumes "bound_inv env s"
  shows "bound_inv env (fetcher_step env s)"
proof (cases "fetcher s")
  case (FNext fs)
  then show ?thesis using assms
    by (cases fs) (auto simp: bound_inv_def fetcher_step_def held_def leftover_def)
next
  case (FOpen f fs)
  then show ?thesis using assms
    by (auto simp: bound_inv_def fetcher_step_def raise_in_try_def held_def leftover_def)
next
  case (FRetr f fs)
  then show ?thesis using assms
    by (auto simp: bound_inv_def fetcher_step_def raise_in_try_def held_def leftover_def)
next
  case (FCheck f fs)
  then show ?thesis using assms
    by (auto simp: bound_inv_def fetcher_step_def raise_in_try_def held_def leftover_def
                   distinct_removeAll)
next
  case (FPut f fs)
  then show ?thesis using assms
    by (auto simp: bound_inv_def fetcher_step_def held_def leftover_def has_room_def staged_def
                   stage_file_def maxsize_def)
next
  case FFinally
  then show ?thesis using assms
    by (auto simp: bound_inv_def fetcher_step_def held_def leftover_def has_room_def maxsize_def)
next
  case FDone
  then show ?thesis using assms
    by (auto simp: bound_inv_def fetcher_step_def)
qed

lemma bound_inv_loader:
  assumes "bound_inv env s"
  shows "bound_inv env (loader_step env s)"
proof (cases "loader s")
  case LGet
  show ?thesis
  proof (cases "file_queue s")
    case Nil
    then show ?thesis using assms LGet
      by (auto simp: bound_inv_def loader_step_def held_def leftover_def)
  next
    case (Cons x q)
    then show ?thesis using assms LGet
      by (cases x) (auto simp: bound_inv_def loader_step_def held_def leftover_def leave_with_def)
  qed
next
  case LEmpty
  then show ?thesis using assms
    by (auto simp: bound_inv_def loader_step_def held_def leftover_def leave_with_def)
next
  case (LLoad f p)
  then show ?thesis using assms
    by (auto simp: bound_inv_def loader_step_def held_def leftover_def Let_def)
next
  case (LFinally f p)
  then show ?thesis using assms
    by (auto simp: bound_inv_def loader_step_def held_def leftover_def leave_with_def
                   distinct_removeAll)
next
  case LExit
  then show ?thesis using assms by (simp add: loader_step_def)
next
  case LRaised
  then show ?thesis using assms by (simp add: loader_step_def)
qed

lemma bound_inv_step: "bound_inv env s \<Longrightarrow> bound_inv env (step env s a)"
  by (cases a) (simp_all add: step_def bound_inv_fetcher bound_inv_loader,
                auto simp: bound_inv_def held_def leftover_def)

lemma run_invariant:
  assumes "P s" and "\<And>s a. P s \<Longrightarrow> P (step env s a)"
  shows "P (run env sched s)"
  using assms(1) unfolding run_def
  by (induction sched arbitrary: s) (simp_all add: assms(2))

lemma bound_inv_run: "bound_inv env (run env sched (init env snk files))"
  by (rule run_invariant [OF bound_inv_init bound_inv_step])

lemma bound_inv_length:
  assumes "bound_inv env s"
  shows "length (staging s) \<le> length (file_queue s) + 2"
proof -
  have "length (staging s) = card (set (staging s))"
    using assms by (simp add: bound_inv_def distinct_card)
  also have "\<dots> \<le> card (set (held env s) \<union> set (leftover s))"
    using assms by (intro card_mono) (auto simp: bound_inv_def)
  also have "\<dots> \<le> card (set (held env s)) + card (set (leftover s))"
    by (rule card_Un_le)
  also have "\<dots> \<le> length (held env s) + length (leftover s)"
    by (intro add_mono card_length)
  also have "\<dots> \<le> length (file_queue s) + 1 + 1"
  proof -
    have "length (loader_paths (loader s)) \<le> 1" by (cases "loader s") simp_all
    moreover have "length (opened (fetcher s)) + length (leftover s) \<le> 1"
      using assms by (cases "fetcher s") (simp_all add: bound_inv_def leftover_def)
    ultimately show ?thesis
      using length_item_paths [of "file_queue s"] by (simp add: held_def)
  qed
  finally show ?thesis by simp
qed

lemma fifo_inv_init: "fifo_inv (init env snk files)"
  by (simp add: fifo_inv_def init_def)

lemma fetcher_step_appends:
  "\<exists>xs. pushed (fetcher_step env s) = pushed s @ xs
       \<and> file_queue (fetcher_step env s) = file_queue s @ xs"
  by (cases "fetcher s"; cases "todo (fetcher s)")
     (auto simp: fetcher_step_def raise_in_try_def)

lemma fetcher_step_frame [simp]:
  "loader (fetcher_step env s) = loader s"
  "attempted (fetcher_step env s) = attempted s"
  "loaded (fetcher_step env s) = loaded s"
  "errored (fetcher_step env s) = errored s"
  "finished (fetcher_step env s) = finished s"
  "stop_event (fetcher_step env s) = stop_event s"
  "dir_exists (fetcher_step env s) = dir_exists s"
  "sink (fetcher_step env s) = sink s"
  by (cases "fetcher s"; cases "todo (fetcher s)";
      simp add: fetcher_step_def raise_in_try_def)+

lemma fifo_inv_fetcher:
  assumes "fifo_inv s"
  shows "fifo_inv (fetcher_step env s)"
proof -
  from assms obtain gone where g: "pushed s = gone @ file_queue s"
    "item_names gone = attempted s @ inflight (loader s)"
    "EndOfFiles \<in> set gone \<longrightarrow> loader s = LExit"
    "loader s = LExit \<longrightarrow> stop_event s \<or> EndOfFiles \<in> set gone"
    "\<forall>f p. loader s = LLoad f p \<or> loader s = LFinally f p \<longrightarrow> StagedFile f p \<in> set gone"
    unfolding fifo_inv_def by blast
  obtain xs where x: "pushed (fetcher_step env s) = pushed s @ xs"
    "file_queue (fetcher_step env s) = file_queue s @ xs"
    using fetcher_step_appends by blast
  show ?thesis
    unfolding fifo_inv_def
    by (rule exI [of _ gone]) (use g x in simp)
qed

lemma fifo_inv_loader:
  assumes "fifo_inv s"
  shows "fifo_inv (loader_step env s)"
proof -
  from assms obtain gone where g: "pushed s = gone @ file_queue s"
    "item_names gone = attempted s @ inflight (loader s)"
    "EndOfFiles \<in> set gone \<longrightarrow> loader s = LExit"
    "loader s = LExit \<longrightarrow> stop_event s \<or> EndOfFiles \<in> set gone"
    "\<forall>f p. loader s = LLoad f p \<or> loader s = LFinally f p \<longrightarrow> StagedFile f p \<in> set gone"
    unfolding fifo_inv_def by blast
  show ?thesis
  proof (cases "loader s")
    case LGet
    show ?thesis
    proof (cases "file_queue s")
      case Nil
      then show ?thesis using g LGet unfolding fifo_inv_def
        by (intro exI [of _ gone]) (simp add: loader_step_def)
    next
      case (Cons x q)
      then show ?thesis using g LGet unfolding fifo_inv_def
        by (intro exI [of _ "gone @ [x]"])
           (cases x; simp add: loader_step_def leave_with_def)
    qed
  next
    case LEmpty
    then show ?thesis using g unfolding fifo_inv_def
      by (intro exI [of _ gone]) (simp add: loader_step_def leave_with_def)
  next
    case (LLoad f p)
    then show ?thesis using g unfolding fifo_inv_def
      by (intro exI [of _ gone]) (simp add: loader_step_def Let_def)
  next
    case (LFinally f p)
    then show ?thesis using g unfolding fifo_inv_def
      by (intro exI [of _ gone]) (simp add: loader_step_def leave_with_def)
  next
    case LExit
    then show ?thesis using assms by (simp add: loader_step_def)
  next
    case LRaised
    then show ?thesis using assms by (simp add: loader_step_def)
  qed
qed

lemma fifo_inv_step: "fifo_inv s \<Longrightarrow> fifo_inv (step env s a)"
  by (cases a) (simp_all add: step_def fifo_inv_fetcher fifo_inv_loader,
                auto simp: fifo_inv_def)

lemma item_paths_staged [simp]:
  "item_paths (map (staged env) fs) = map (temp_file_path env) fs"
  by (induction fs) (simp_all add: staged_def)

lemma item_names_staged [simp]: "item_names (map (staged env) fs) = fs"
  by (induction fs) (simp_all add: staged_def)

lemma item_paths_set: "p \<in> set (item_paths xs) \<longleftrightarrow> (\<exists>f. StagedFile f p \<in> set xs)"
  by (induction xs rule: item_paths.induct) auto

lemma pushed_files:
  assumes "push_inv env files s"
  shows "\<exists>pre rest. files = pre @ rest
           \<and> map (file_at env) (item_paths (pushed s)) = map (stage_file env) pre
           \<and> (in_loop (fetcher s) \<longrightarrow> rest = todo (fetcher s))"
proof -
  from assms obtain pre rest where h: "files = pre @ rest"
    "pushed s = map (staged env) pre @ (if fetcher s = FDone then [EndOfFiles] else [])"
    "in_loop (fetcher s) \<longrightarrow> rest = todo (fetcher s)"
    unfolding push_inv_def by blast
  have "map (file_at env) (item_paths (pushed s)) = map (stage_file env) pre"
    using h(2) by (simp add: stage_file_def comp_def)
  then show ?thesis using h(1,3) by blast
qed

lemma pushed_distinct:
  "push_inv env files s \<Longrightarrow> distinct (map (stage_file env) files) \<Longrightarrow>
     distinct (map (file_at env) (item_paths (pushed s)))"
  by (auto dest!: pushed_files)

lemma pushed_wf:
  "push_inv env files s \<Longrightarrow> StagedFile f p \<in> set (pushed s) \<Longrightarrow> p = temp_file_path env f"
  by (auto simp: push_inv_def staged_def split: if_splits)

lemma current_not_pushed:
  assumes "push_inv env files s" and "distinct (map (stage_file env) files)"
    and "in_loop (fetcher s)" and "todo (fetcher s) = f # fs"
  shows "stage_file env f \<notin> file_at env ` set (item_paths (pushed s))"
proof -
  obtain pre rest where h: "files = pre @ rest"
    "map (file_at env) (item_paths (pushed s)) = map (stage_file env) pre"
    "in_loop (fetcher s) \<longrightarrow> rest = todo (fetcher s)"
    using pushed_files [OF assms(1)] by blast
  have "files = pre @ f # fs" using h(1,3) assms(3,4) by simp
  then have "stage_file env f \<notin> set (map (stage_file env) pre)"
    using assms(2) by auto
  then show ?thesis using h(2) by (metis set_map)
qed

lemma unopened_not_created:
  "created_inv env files s \<Longrightarrow> distinct (map (stage_file env) files) \<Longrightarrow>
     fetcher s = FOpen f fs \<Longrightarrow> stage_file env f \<notin> set (created s)"
  by (auto simp: created_inv_def)

lemma store_inv_init: "store_inv env (init env snk files)"
  by (simp add: store_inv_def init_def held_def)

lemma held_paths_pushed:
  assumes "fifo_inv s"
  shows "set (item_paths (file_queue s)) \<union> set (loader_paths (loader s))
           \<subseteq> set (item_paths (pushed s))"
proof -
  from assms obtain gone where g: "pushed s = gone @ file_queue s"
    "\<forall>f p. loader s = LLoad f p \<or> loader s = LFinally f p \<longrightarrow> StagedFile f p \<in> set gone"
    unfolding fifo_inv_def by blast
  have "set (loader_paths (loader s)) \<subseteq> set (item_paths gone)"
    using g(2) by (cases "loader s") (auto simp: item_paths_set)
  then show ?thesis using g(1) by auto
qed

lemma outside_when_dir_gone:
  "can_open env s p \<Longrightarrow> \<not> dir_exists s \<Longrightarrow> \<not> inside env (file_at env p)"
  by (auto simp: can_open_def inside_def file_at_def split: place.splits)

lemma store_inv_fetcher:
  assumes st: "store_inv env s" and pu: "push_inv env files s"
    and cr: "created_inv env files s" and fi: "fifo_inv s"
    and d: "distinct (map (stage_file env) files)"
  shows "store_inv env (fetcher_step env s)"
proof (cases "fetcher s")
  case (FNext fs)
  then show ?thesis using st
    by (cases fs) (auto simp: store_inv_def fetcher_step_def held_def)
next
  case (FOpen f fs)
  have "stage_file env f \<notin> set (created s)"
    using unopened_not_created [OF cr d FOpen] .
  then have n: "stage_file env f \<notin> set (staging s)" "stage_file env f \<notin> set (removed s)"
    using st by (auto simp: store_inv_def)
  show ?thesis
  proof (cases "can_open env s (temp_file_path env f)")
    case True
    have o: "\<not> dir_exists s \<longrightarrow> \<not> inside env (stage_file env f)"
      using outside_when_dir_gone [OF True] by (simp add: stage_file_def)
    have step: "fetcher_step env s =
        s\<lparr>staging := List.insert (stage_file env f) (staging s),
          created := created s @ [stage_file env f], fetcher := FRetr f fs\<rparr>"
      using FOpen True by (simp add: fetcher_step_def)
    show ?thesis unfolding step using st n o FOpen
      by (auto simp: store_inv_def held_def)
  next
    case False
    then show ?thesis using st FOpen
      by (auto simp: store_inv_def fetcher_step_def raise_in_try_def held_def)
  qed
next
  case (FRetr f fs)
  then show ?thesis using st
    by (auto simp: store_inv_def fetcher_step_def raise_in_try_def held_def)
next
  case (FCheck f fs)
  have "stage_file env f \<notin> file_at env ` set (item_paths (pushed s))"
    using current_not_pushed [OF pu d] FCheck by simp
  then have "\<forall>x \<in> set (item_paths (file_queue s)) \<union> set (loader_paths (loader s)).
      file_at env x \<noteq> stage_file env f"
    using held_paths_pushed [OF fi] by (metis imageI subsetD)
  then show ?thesis using st FCheck
    by (auto simp: store_inv_def fetcher_step_def raise_in_try_def held_def distinct_removeAll)
next
  case (FPut f fs)
  then show ?thesis using st
    by (auto simp: store_inv_def fetcher_step_def staged_def held_def stage_file_def)
next
  case FFinally
  then show ?thesis using st
    by (auto simp: store_inv_def fetcher_step_def held_def)
next
  case FDone
  then show ?thesis using st
    by (auto simp: store_inv_def fetcher_step_def)
qed

lemma opened_todo:
  "f \<in> set (opened pc) \<Longrightarrow> in_loop pc \<and> (\<exists>fs. todo pc = f # fs)"
  by (cases pc) simp_all

lemma loader_item:
  assumes fi: "fifo_inv s" and pu: "push_inv env files s"
    and d: "distinct (map (stage_file env) files)"
    and l: "loader s = LLoad f p \<or> loader s = LFinally f p"
  shows "p = temp_file_path env f"
    "file_at env p \<notin> file_at env ` set (item_paths (file_queue s))"
    "file_at env p \<notin> stage_file env ` set (opened (fetcher s))"
proof -
  from fi obtain gone where g: "pushed s = gone @ file_queue s"
    "\<forall>f p. loader s = LLoad f p \<or> loader s = LFinally f p \<longrightarrow> StagedFile f p \<in> set gone"
    unfolding fifo_inv_def by blast
  have in_gone: "StagedFile f p \<in> set gone" using g(2) l by blast
  then show "p = temp_file_path env f"
    using pushed_wf [OF pu, of f p] g(1) by simp
  have "distinct (map (file_at env) (item_paths gone) @ map (file_at env) (item_paths (file_queue s)))"
    using pushed_distinct [OF pu d] g(1) by simp
  moreover have pg: "p \<in> set (item_paths gone)"
    using in_gone by (auto simp: item_paths_set)
  ultimately show "file_at env p \<notin> file_at env ` set (item_paths (file_queue s))" by auto
  show "file_at env p \<notin> stage_file env ` set (opened (fetcher s))"
  proof
    assume "file_at env p \<in> stage_file env ` set (opened (fetcher s))"
    then obtain f' where f': "f' \<in> set (opened (fetcher s))" "file_at env p = stage_file env f'"
      by blast
    then obtain fs where "in_loop (fetcher s)" "todo (fetcher s) = f' # fs"
      using opened_todo by blast
    then have "stage_file env f' \<notin> file_at env ` set (item_paths (pushed s))"
      using current_not_pushed [OF pu d] by blast
    then show False using pg f'(2) g(1) by force
  qed
qed

lemma leave_with_store:
  assumes "distinct (staging s @ removed s)" "set (staging s) \<union> set (removed s) = set (created s)"
  shows "distinct (staging (leave_with env s) @ removed (leave_with env s))"
    "set (staging (leave_with env s)) \<union> set (removed (leave_with env s)) = set (created s)"
    "\<forall>p \<in> set (staging (leave_with env s)). \<not> inside env p"
  using assms by (auto simp: leave_with_def)

lemma leave_with_frame [simp]:
  "fetcher (leave_with env s) = fetcher s"
  "loader (leave_with env s) = loader s"
  "file_queue (leave_with env s) = file_queue s"
  "created (leave_with env s) = created s"
  "finished (leave_with env s) = finished s"
  "dir_exists (leave_with env s) = False"
  by (simp_all add: leave_with_def)

lemma removed_leave_with: "set (removed s) \<subseteq> set (removed (leave_with env s))"
  by (auto simp: leave_with_def)

lemma store_inv_exit:
  assumes st: "store_inv env s" and l: "loader s' = LExit" and c: "created s' = created s"
    and f: "finished s' = finished s" and g: "staging s' = staging s" and r: "removed s' = removed s"
  shows "store_inv env (leave_with env s')"
proof -
  have a: "distinct (staging s' @ removed s')" "set (staging s') \<union> set (removed s') = set (created s')"
    using st c g r by (simp_all add: store_inv_def)
  note lw = leave_with_store [OF a, of env]
  have "stage_file env ` set (finished s') \<subseteq> set (removed (leave_with env s'))"
    using st f r removed_leave_with [of s' env] by (auto simp: store_inv_def)
  then show ?thesis using lw l by (simp add: store_inv_def)
qed

lemma store_inv_loader:
  assumes st: "store_inv env s" and pu: "push_inv env files s"
    and fi: "fifo_inv s" and d: "distinct (map (stage_file env) files)"
  shows "store_inv env (loader_step env s)"
proof (cases "loader s")
  case LGet
  show ?thesis
  proof (cases "file_queue s")
    case Nil
    then show ?thesis using st LGet
      by (auto simp: store_inv_def loader_step_def held_def)
  next
    case (Cons x q)
    show ?thesis
    proof (cases x)
      case (StagedFile f p)
      then show ?thesis using st LGet Cons
        by (auto simp: store_inv_def loader_step_def held_def)
    next
      case EndOfFiles
      have "store_inv env (leave_with env (s\<lparr>file_queue := q, loader := LExit\<rparr>))"
        by (rule store_inv_exit [OF st]) simp_all
      then show ?thesis using LGet Cons EndOfFiles by (simp add: loader_step_def)
    qed
  qed
next
  case LEmpty
  show ?thesis
  proof (cases "stop_event s")
    case True
    have "store_inv env (leave_with env (s\<lparr>loader := LExit\<rparr>))"
      by (rule store_inv_exit [OF st]) simp_all
    then show ?thesis using LEmpty True by (simp add: loader_step_def)
  next
    case False
    then show ?thesis using st LEmpty
      by (auto simp: store_inv_def loader_step_def held_def)
  qed
next
  case (LLoad f p)
  then show ?thesis using st
    by (auto simp: store_inv_def loader_step_def Let_def held_def)
next
  case (LFinally f p)
  have dir: "dir_exists s" using st LFinally by (simp add: store_inv_def)
  then have inst: "file_at env p \<in> set (staging s)"
    using st LFinally by (auto simp: store_inv_def held_def)
  note li = loader_item [OF fi pu d disjI2, OF LFinally]
  have sf: "stage_file env f = file_at env p" using li(1) by (simp add: stage_file_def)
  have nq: "\<forall>x \<in> set (item_paths (file_queue s)). file_at env x \<noteq> file_at env p"
    using li(2) by (metis imageI)
  have no: "\<forall>x \<in> set (opened (fetcher s)). stage_file env x \<noteq> file_at env p"
    using li(3) by (metis imageI)
  have step: "loader_step env s =
      s\<lparr>staging := removeAll (file_at env p) (staging s),
        removed := removed s @ [file_at env p],
        finished := finished s @ [f], loader := LGet\<rparr>"
    using LFinally inst by (simp add: loader_step_def)
  show ?thesis
    unfolding step using st dir inst nq no sf LFinally
    by (auto simp: store_inv_def held_def distinct_removeAll)
next
  case LExit
  then show ?thesis using st by (simp add: loader_step_def)
next
  case LRaised
  then show ?thesis using st by (simp add: loader_step_def)
qed

lemma store_inv_step:
  assumes "store_inv env s" "push_inv env files s" "created_inv env files s" "fifo_inv s"
    "distinct (map (stage_file env) files)"
  shows "store_inv env (step env s a)"
proof (cases a)
  case Fetcher
  then show ?thesis using assms by (simp add: step_def store_inv_fetcher)
next
  case Loader
  then show ?thesis using assms by (simp add: step_def store_inv_loader)
next
  case Interrupt
  then show ?thesis using assms(1) by (simp add: step_def store_inv_def held_def)
qed

lemma pipeline_inv_init: "pipeline_inv env files (init env snk files)"
  by (simp add: pipeline_inv_def push_inv_init created_inv_init fifo_inv_init bound_inv_init
                store_inv_init)

lemma pipeline_inv_step:
  "distinct (map (stage_file env) files) \<Longrightarrow> pipeline_inv env files s \<Longrightarrow>
     pipeline_inv env files (step env s a)"
  unfolding pipeline_inv_def
  by (intro conjI push_inv_step created_inv_step fifo_inv_step bound_inv_step
            store_inv_step [where files = files]) simp_all

lemma pipeline_inv_run:
  assumes "distinct (map (stage_file env) files)"
  shows "pipeline_inv env files (run env sched (init env snk files))"
proof (rule run_invariant [where P = "pipeline_inv env files"])
  show "pipeline_inv env files (init env snk files)" by (rule pipeline_inv_init)
  show "pipeline_inv env files (step env s a)" if "pipeline_inv env files s" for s a
    using assms that by (rule pipeline_inv_step)
qed

lemma load_inv_init: "load_inv env snk (init env snk files)"
  by (auto simp: load_inv_def init_def rows_of_def split: tool.splits option.splits)

lemma insert_file_result:
  "tool env = StormEvents \<longrightarrow> snk \<noteq> None \<Longrightarrow>
     snd (insert_file (tool env) (parse env f) snk) = good env f
     \<and> rows_of (fst (insert_file (tool env) (parse env f) snk))
         = rows_of snk @ (if good env f then rows_of (parse env f) else [])
     \<and> (tool env = StormEvents \<longrightarrow> fst (insert_file (tool env) (parse env f) snk) \<noteq> None)"
  by (auto simp: insert_file_def good_def rows_of_def Let_def split: tool.splits option.splits)

lemma load_inv_loader:
  assumes li: "load_inv env snk s" and st: "store_inv env s"
  shows "load_inv env snk (loader_step env s)"
proof (cases "loader s")
  case LGet
  show ?thesis
  proof (cases "file_queue s")
    case Nil
    then show ?thesis using li LGet by (simp add: load_inv_def loader_step_def)
  next
    case (Cons x q)
    then show ?thesis using li LGet
      by (cases x) (simp_all add: load_inv_def loader_step_def leave_with_def)
  qed
next
  case LEmpty
  then show ?thesis using li by (simp add: load_inv_def loader_step_def leave_with_def)
next
  case (LLoad f p)
  have "dir_exists s" using st LLoad by (simp add: store_inv_def)
  then have inst: "file_at env p \<in> set (staging s)"
    using st LLoad by (auto simp: store_inv_def held_def)
  have sk: "tool env = StormEvents \<longrightarrow> sink s \<noteq> None" using li by (simp add: load_inv_def)
  note r = insert_file_result [OF sk, of f]
  have step: "loader_step env s =
      s\<lparr>sink := fst (insert_file (tool env) (parse env f) (sink s)),
        attempted := attempted s @ [f],
        loaded := (if good env f then loaded s @ [f] else loaded s),
        errored := (if good env f then errored s else errored s @ [f]),
        loader := LFinally f p\<rparr>"
    using LLoad inst r by (simp add: loader_step_def Let_def)
  show ?thesis unfolding step using li LLoad r
    by (simp add: load_inv_def)
next
  case (LFinally f p)
  have "dir_exists s" using st LFinally by (simp add: store_inv_def)
  then have inst: "file_at env p \<in> set (staging s)"
    using st LFinally by (auto simp: store_inv_def held_def)
  then show ?thesis using li LFinally by (simp add: load_inv_def loader_step_def)
next
  case LExit
  then show ?thesis using li by (simp add: loader_step_def)
next
  case LRaised
  then show ?thesis using li by (simp add: loader_step_def)
qed

lemma load_inv_step:
  assumes "load_inv env snk s" "store_inv env s"
  shows "load_inv env snk (step env s a)"
proof (cases a)
  case Fetcher
  then show ?thesis using assms(1) by (simp add: step_def load_inv_def)
next
  case Loader
  then show ?thesis using assms by (simp add: step_def load_inv_loader)
next
  case Interrupt
  then show ?thesis using assms(1) by (simp add: step_def load_inv_def)
qed

lemma sink_inv_init: "sink_inv env snk (init env snk files)"
  by (auto simp: sink_inv_def init_def rows_of_def split: tool.splits option.splits)

lemma insert_file_rows:
  "tool env = StormEvents \<longrightarrow> snk \<noteq> None \<Longrightarrow>
     rows_of (fst (insert_file (tool env) content snk))
         = rows_of snk @ (if snd (insert_file (tool env) content snk) then rows_of content else [])
     \<and> (snd (insert_file (tool env) content snk) \<longrightarrow> content \<noteq> None)
     \<and> (tool env = StormEvents \<longrightarrow> fst (insert_file (tool env) content snk) \<noteq> None)"
  by (auto simp: insert_file_def rows_of_def Let_def split: tool.splits option.splits)

lemma sink_inv_loader:
  assumes si: "sink_inv env snk s"
  shows "sink_inv env snk (loader_step env s)"
proof (cases "loader s")
  case LGet
  show ?thesis
  proof (cases "file_queue s")
    case Nil
    then show ?thesis using si LGet by (simp add: sink_inv_def loader_step_def)
  next
    case (Cons x q)
    then show ?thesis using si LGet
      by (cases x) (simp_all add: sink_inv_def loader_step_def leave_with_def)
  qed
next
  case LEmpty
  then show ?thesis using si by (simp add: sink_inv_def loader_step_def leave_with_def)
next
  case (LLoad f p)
  define content where "content = (if file_at env p \<in> set (staging s) then parse env f else None)"
  have sk: "tool env = StormEvents \<longrightarrow> sink s \<noteq> None" using si by (simp add: sink_inv_def)
  note r = insert_file_rows [OF sk, of content]
  have c: "snd (insert_file (tool env) content (sink s)) \<longrightarrow> content = parse env f"
    using r by (auto simp: content_def)
  have step: "loader_step env s =
      s\<lparr>sink := fst (insert_file (tool env) content (sink s)),
        attempted := attempted s @ [f],
        loaded := (if snd (insert_file (tool env) content (sink s)) then loaded s @ [f]
                   else loaded s),
        errored := (if snd (insert_file (tool env) content (sink s)) then errored s
                    else errored s @ [f]),
        loader := LFinally f p\<rparr>"
    using LLoad by (simp add: loader_step_def Let_def content_def)
  show ?thesis unfolding step using si r c
    by (auto simp: sink_inv_def)
next
  case (LFinally f p)
  then show ?thesis using si
    by (simp add: sink_inv_def loader_step_def leave_with_def)
next
  case LExit
  then show ?thesis using si by (simp add: loader_step_def)
next
  case LRaised
  then show ?thesis using si by (simp add: loader_step_def)
qed

lemma sink_inv_step: "sink_inv env snk s \<Longrightarrow> sink_inv env snk (step env s a)"
  by (cases a) (simp_all add: step_def sink_inv_loader, simp_all add: sink_inv_def)

lemma sink_inv_run: "sink_inv env snk (run env sched (init env snk files))"
  by (rule run_invariant [where P = "sink_inv env snk", OF sink_inv_init sink_inv_step])

lemma complete_inv_init: "complete_inv files (init env snk files)"
  by (simp add: complete_inv_def init_def)

lemma loader_step_error [simp]: "fetcher_error (loader_step env s) = fetcher_error s"
  by (cases "loader s"; cases "file_queue s"; cases "hd (file_queue s)";
      simp add: loader_step_def leave_with_def Let_def)

lemma complete_inv_fetcher:
  assumes co: "complete_inv files s" and pu: "push_inv env files s"
  shows "complete_inv files (fetcher_step env s)"
proof (cases "fetcher s")
  case (FNext fs)
  then show ?thesis using pu
    by (cases fs) (auto simp: complete_inv_def push_inv_def fetcher_step_def)
next
  case (FOpen f fs)
  then show ?thesis by (auto simp: complete_inv_def fetcher_step_def raise_in_try_def)
next
  case (FRetr f fs)
  then show ?thesis by (auto simp: complete_inv_def fetcher_step_def raise_in_try_def)
next
  case (FCheck f fs)
  then show ?thesis by (auto simp: complete_inv_def fetcher_step_def raise_in_try_def)
next
  case (FPut f fs)
  then show ?thesis by (auto simp: complete_inv_def fetcher_step_def)
next
  case FFinally
  then show ?thesis using co by (auto simp: complete_inv_def fetcher_step_def)
next
  case FDone
  then show ?thesis using co by (auto simp: complete_inv_def fetcher_step_def)
qed

lemma complete_inv_step:
  assumes "complete_inv files s" "push_inv env files s"
  shows "complete_inv files (step env s a)"
proof (cases a)
  case Fetcher
  then show ?thesis using assms by (simp add: step_def complete_inv_fetcher)
next
  case Loader
  then show ?thesis using assms(1) by (simp add: step_def complete_inv_def)
next
  case Interrupt
  then show ?thesis by (simp add: step_def complete_inv_def)
qed






section \<open>The pipeline: claims\<close>

lemma full_inv_run:
  assumes "distinct (map (stage_file env) files)"
  shows "full_inv env files snk (run env sched (init env snk files))"
proof (rule run_invariant [where P = "full_inv env files snk"])
  show "full_inv env files snk (init env snk files)"
    by (simp add: full_inv_def pipeline_inv_init load_inv_init complete_inv_init)
  show "full_inv env files snk (step env s a)" if "full_inv env files snk s" for s a
  proof -
    have p: "pipeline_inv env files s" and l: "load_inv env snk s" and c: "complete_inv files s"
      using that by (simp_all add: full_inv_def)
    have "pipeline_inv env files (step env s a)"
      using assms p by (rule pipeline_inv_step)
    moreover have "load_inv env snk (step env s a)"
      using l p by (simp add: load_inv_step pipeline_inv_def)
    moreover have "complete_inv files (step env s a)"
      using c p by (simp add: complete_inv_step [where env = env] pipeline_inv_def)
    ultimately show ?thesis by (simp add: full_inv_def)
  qed
qed


lemma fifo_inv_run: "fifo_inv (run env sched (init env snk files))"
  by (rule run_invariant [where P = fifo_inv, OF fifo_inv_init fifo_inv_step])





text \<open>
  Claim C7, as stated, fails. With four candidates and a Loader that is slow on the first
  file, the run below reaches a state in which the Loader is loading the file of 2019, the
  queue holds the two staged files of 2020 and 2021, and the Fetcher has already staged the
  file of 2022 and waits at \<^verbatim>\<open>put\<close>: two staged files in the buffer besides the one being
  processed, three waiting for the Loader, four in the staging directory.
\<close>

theorem backpressure_counterexample:
  "file_queue (run example_env (replicate 5 Fetcher @ [Loader] @ replicate 15 Fetcher)
       (init example_env None [''2019.csv.gz'', ''2020.csv.gz'', ''2021.csv.gz'', ''2022.csv.gz'']))
     = [StagedFile ''2020.csv.gz'' ''/tmp/stage/2020.csv.gz'',
        StagedFile ''2021.csv.gz'' ''/tmp/stage/2021.csv.gz'']
   \<and> loader (run example_env (replicate 5 Fetcher @ [Loader] @ replicate 15 Fetcher)
       (init example_env None [''2019.csv.gz'', ''2020.csv.gz'', ''2021.csv.gz'', ''2022.csv.gz'']))
     = LLoad ''2019.csv.gz'' ''/tmp/stage/2019.csv.gz''
   \<and> fetcher (run example_env (replicate 5 Fetcher @ [Loader] @ replicate 15 Fetcher)
       (init example_env None [''2019.csv.gz'', ''2020.csv.gz'', ''2021.csv.gz'', ''2022.csv.gz'']))
     = FPut ''2022.csv.gz'' []
   \<and> staging (run example_env (replicate 5 Fetcher @ [Loader] @ replicate 15 Fetcher)
       (init example_env None [''2019.csv.gz'', ''2020.csv.gz'', ''2021.csv.gz'', ''2022.csv.gz'']))
     = [''/tmp/stage/2022.csv.gz'', ''/tmp/stage/2021.csv.gz'', ''/tmp/stage/2020.csv.gz'',
        ''/tmp/stage/2019.csv.gz'']"
  by code_simp

text \<open>
  Claim C7, amended. The queue never holds more than two items. The Fetcher downloads its
  next file before it calls \<^verbatim>\<open>put\<close>, so besides the staged files in the queue it holds at
  most one more: at most three staged files wait for the Loader, and with the one the Loader
  is working on at most four files are in the staging directory.
\<close>

theorem channel_and_staging_bounds:
  "length (file_queue (run env sched (init env snk files))) \<le> 2
   \<and> length (item_paths (file_queue (run env sched (init env snk files))))
       + length (opened (fetcher (run env sched (init env snk files)))) \<le> 3
   \<and> length (staging (run env sched (init env snk files))) \<le> 4"
proof -
  let ?s = "run env sched (init env snk files)"
  have b: "bound_inv env ?s" by (rule bound_inv_run)
  then have q: "length (file_queue ?s) \<le> 2" by (simp add: bound_inv_def maxsize_def)
  have o: "length (opened (fetcher ?s)) \<le> 1" by (cases "fetcher ?s") simp_all
  have "length (staging ?s) \<le> length (file_queue ?s) + 2" using b by (rule bound_inv_length)
  then show ?thesis using q o length_item_paths [of "file_queue ?s"] by linarith
qed

lemma distinct_count_list:
  "distinct xs \<Longrightarrow> count_list xs x = (if x \<in> set xs then 1 else 0)"
  by (induction xs) auto

text \<open>
  Claim C5, as stated, fails. When the listing repeats a name, both staged items share one
  file: in the first run below the Loader's \<^verbatim>\<open>finally\<close> removes it after the first item, and
  for the second item \<^verbatim>\<open>os.remove\<close> raises \<^verbatim>\<open>FileNotFoundError\<close> out of the loop, so that two
  staged files were created, one was removed and the second is never reported finished.
  When the listing holds an absolute name, \<^verbatim>\<open>os.path.join\<close> discards the staging directory
  and the file is staged where the name says: in the second run the Loader leaves on
  cancellation with the item in the queue, the staging directory is cleaned up, and the
  staged file stays on disk, never removed.
\<close>

theorem staged_file_not_removed_counterexample:
  "created (run example_env (replicate 10 Fetcher @ replicate 6 Loader)
       (init example_env None [''2020.csv.gz'', ''2020.csv.gz'']))
     = [''/tmp/stage/2020.csv.gz'', ''/tmp/stage/2020.csv.gz'']
   \<and> removed (run example_env (replicate 10 Fetcher @ replicate 6 Loader)
       (init example_env None [''2020.csv.gz'', ''2020.csv.gz'']))
     = [''/tmp/stage/2020.csv.gz'']
   \<and> finished (run example_env (replicate 10 Fetcher @ replicate 6 Loader)
       (init example_env None [''2020.csv.gz'', ''2020.csv.gz''])) = [''2020.csv.gz'']
   \<and> loader (run example_env (replicate 10 Fetcher @ replicate 6 Loader)
       (init example_env None [''2020.csv.gz'', ''2020.csv.gz''])) = LRaised
   \<and> temp_file_path example_env ''/data/2020.csv.gz'' = ''/data/2020.csv.gz''
   \<and> loader (run example_env ([Loader] @ replicate 5 Fetcher @ [Interrupt, Loader, Fetcher, Fetcher])
       (init example_env None [''/data/2020.csv.gz''])) = LExit
   \<and> fetcher (run example_env ([Loader] @ replicate 5 Fetcher @ [Interrupt, Loader, Fetcher, Fetcher])
       (init example_env None [''/data/2020.csv.gz''])) = FDone
   \<and> \<not> dir_exists (run example_env
       ([Loader] @ replicate 5 Fetcher @ [Interrupt, Loader, Fetcher, Fetcher])
       (init example_env None [''/data/2020.csv.gz'']))
   \<and> staging (run example_env ([Loader] @ replicate 5 Fetcher @ [Interrupt, Loader, Fetcher, Fetcher])
       (init example_env None [''/data/2020.csv.gz''])) = [''/data/2020.csv.gz'']
   \<and> removed (run example_env ([Loader] @ replicate 5 Fetcher @ [Interrupt, Loader, Fetcher, Fetcher])
       (init example_env None [''/data/2020.csv.gz''])) = []"
  by code_simp

text \<open>
  Claim C5, amended. When no two candidates are staged at the same file (in particular no
  name is listed twice), in every state of every run: each file the Fetcher has created is
  either on disk and has never been removed, or is gone and has been removed exactly once;
  nothing is removed that was not created. The files on disk are those of the items in the
  queue, of the item the Loader works on and of the download the Fetcher is in, besides
  the file a failed transfer left behind: so the Fetcher's file is gone once it has seen
  the stop event after the download, and the Loader's file is gone once its \<^verbatim>\<open>finally\<close>
  clause has run, after a successful or a failed load alike; and while the Loader is in
  its loop none of these files is missing. A file reported as finished has been removed
  and is not on disk. The loop is never left by an exception, and once the Loader has left
  the \<^verbatim>\<open>with\<close> block no file is left inside the staging directory.
\<close>

theorem staged_file_removed_once:
  assumes "distinct (map (stage_file env) files)" and "s = run env sched (init env snk files)"
  shows "(\<forall>p \<in> set (created s).
            count_list (removed s) p = (if p \<in> set (staging s) then 0 else 1))
         \<and> set (removed s) \<subseteq> set (created s)
         \<and> set (staging s) \<subseteq> set (held env s) \<union> set (leftover s)
         \<and> (loader s \<noteq> LExit \<longrightarrow> set (held env s) \<subseteq> set (staging s))
         \<and> (\<forall>f \<in> set (finished s). stage_file env f \<in> set (removed s)
                                    \<and> stage_file env f \<notin> set (staging s))
         \<and> loader s \<noteq> LRaised
         \<and> (loader s = LExit \<longrightarrow> (\<forall>p \<in> set (staging s). \<not> inside env p))"
proof -
  have pi: "pipeline_inv env files s" using assms by (simp add: pipeline_inv_run)
  then have st: "store_inv env s" and bo: "bound_inv env s" by (simp_all add: pipeline_inv_def)
  have d: "distinct (removed s)" "set (staging s) \<inter> set (removed s) = {}"
    "set (staging s) \<union> set (removed s) = set (created s)"
    using st by (auto simp: store_inv_def)
  have "count_list (removed s) p = (if p \<in> set (staging s) then 0 else 1)"
    if "p \<in> set (created s)" for p
    using that d by (auto simp: distinct_count_list)
  moreover have "set (removed s) \<subseteq> set (created s)" using d(3) by blast
  moreover have "set (staging s) \<subseteq> set (held env s) \<union> set (leftover s)"
    using bo by (simp add: bound_inv_def)
  moreover have "loader s \<noteq> LExit \<longrightarrow> set (held env s) \<subseteq> set (staging s)"
    using st by (simp add: store_inv_def)
  moreover have "\<forall>f \<in> set (finished s). stage_file env f \<in> set (removed s)
                                    \<and> stage_file env f \<notin> set (staging s)"
    using st d(2) by (auto simp: store_inv_def)
  moreover have "loader s \<noteq> LRaised" using st by (simp add: store_inv_def)
  moreover have "loader s = LExit \<longrightarrow> (\<forall>p \<in> set (staging s). \<not> inside env p)"
    using st by (simp add: store_inv_def)
  ultimately show ?thesis by blast
qed

theorem staged_file_removed_once_witness:
  "distinct (map (stage_file example_env) [''2020.csv.gz'', ''2021.csv.gz'', ''2022.csv.gz''])
   \<and> loader (run example_env
        (replicate 5 Fetcher @ replicate 4 Loader @ replicate 8 Fetcher
           @ [Interrupt, Fetcher, Loader, Fetcher])
        (init example_env None [''2020.csv.gz'', ''2021.csv.gz'', ''2022.csv.gz''])) = LExit
   \<and> created (run example_env
        (replicate 5 Fetcher @ replicate 4 Loader @ replicate 8 Fetcher
           @ [Interrupt, Fetcher, Loader, Fetcher])
        (init example_env None [''2020.csv.gz'', ''2021.csv.gz'', ''2022.csv.gz'']))
       = [''/tmp/stage/2020.csv.gz'', ''/tmp/stage/2021.csv.gz'', ''/tmp/stage/2022.csv.gz'']
   \<and> removed (run example_env
        (replicate 5 Fetcher @ replicate 4 Loader @ replicate 8 Fetcher
           @ [Interrupt, Fetcher, Loader, Fetcher])
        (init example_env None [''2020.csv.gz'', ''2021.csv.gz'', ''2022.csv.gz'']))
       = [''/tmp/stage/2020.csv.gz'', ''/tmp/stage/2022.csv.gz'', ''/tmp/stage/2021.csv.gz'']
   \<and> staging (run example_env
        (replicate 5 Fetcher @ replicate 4 Loader @ replicate 8 Fetcher
           @ [Interrupt, Fetcher, Loader, Fetcher])
        (init example_env None [''2020.csv.gz'', ''2021.csv.gz'', ''2022.csv.gz''])) = []
   \<and> count_list (removed (run example_env
        (replicate 5 Fetcher @ replicate 4 Loader @ replicate 8 Fetcher
           @ [Interrupt, Fetcher, Loader, Fetcher])
        (init example_env None [''2020.csv.gz'', ''2021.csv.gz'', ''2022.csv.gz''])))
        ''/tmp/stage/2021.csv.gz'' = 1"
proof -
  let ?files = "[''2020.csv.gz'', ''2021.csv.gz'', ''2022.csv.gz'']"
  let ?sched = "replicate 5 Fetcher @ replicate 4 Loader @ replicate 8 Fetcher
           @ [Interrupt, Fetcher, Loader, Fetcher]"
  let ?s = "run example_env ?sched (init example_env None ?files)"
  have d: "distinct (map (stage_file example_env) ?files)" by code_simp
  have l: "loader ?s = LExit" by code_simp
  have c: "created ?s
      = [''/tmp/stage/2020.csv.gz'', ''/tmp/stage/2021.csv.gz'', ''/tmp/stage/2022.csv.gz'']"
    by code_simp
  have r: "removed ?s
      = [''/tmp/stage/2020.csv.gz'', ''/tmp/stage/2022.csv.gz'', ''/tmp/stage/2021.csv.gz'']"
    by code_simp
  have g: "staging ?s = []" by code_simp
  have "count_list (removed ?s) ''/tmp/stage/2021.csv.gz'' = 1"
    using staged_file_removed_once [OF d refl, of ?sched None] c g by simp
  then show ?thesis using d l c r g by blast
qed

lemma marker_not_staged [simp]: "EndOfFiles \<notin> set (map (staged env) fs)"
  by (auto simp: staged_def)

lemma exit_without_cancel:
  assumes pu: "push_inv env files s" and fi: "fifo_inv s"
    and l: "loader s = LExit" and ns: "\<not> stop_event s"
  shows "attempted s = item_names (pushed s) \<and> fetcher s = FDone \<and> file_queue s = []"
proof -
  from fi obtain gone where g: "pushed s = gone @ file_queue s"
    "item_names gone = attempted s @ inflight (loader s)"
    "loader s = LExit \<longrightarrow> stop_event s \<or> EndOfFiles \<in> set gone"
    unfolding fifo_inv_def by blast
  from pu obtain pre where p:
    "pushed s = map (staged env) pre @ (if fetcher s = FDone then [EndOfFiles] else [])"
    unfolding push_inv_def by blast
  have eg: "EndOfFiles \<in> set gone" using g(3) l ns by blast
  then have "EndOfFiles \<in> set (pushed s)" using g(1) by simp
  then have fd: "fetcher s = FDone" using p by (auto simp: staged_def split: if_splits)
  then have eq: "gone @ file_queue s = map (staged env) pre @ [EndOfFiles]"
    using g(1) p by simp
  have q: "file_queue s = []"
  proof (rule ccontr)
    assume "file_queue s \<noteq> []"
    then obtain q' x where qx: "file_queue s = q' @ [x]"
      by (metis rev_exhaust)
    then have "(gone @ q') @ [x] = map (staged env) pre @ [EndOfFiles]" using eq by simp
    then have "gone @ q' = map (staged env) pre" by (simp only: append1_eq_conv)
    then have "set gone \<subseteq> set (map (staged env) pre)" by (metis set_append Un_upper1)
    then show False using eg by (auto simp: staged_def)
  qed
  then have "item_names (pushed s) = attempted s" using g l by simp
  then show ?thesis using fd q by simp
qed

lemma load_then_finally:
  assumes l: "loader s = LLoad f p" and i: "file_at env p \<in> set (staging s)"
    and k: "tool env = StormEvents \<longrightarrow> sink s \<noteq> None"
  shows "loader (run env [Loader, Loader] s) = LGet
         \<and> f \<in> set (finished (run env [Loader, Loader] s))
         \<and> file_at env p \<notin> set (staging (run env [Loader, Loader] s))
         \<and> (if good env f then f \<in> set (loaded (run env [Loader, Loader] s))
            else f \<in> set (errored (run env [Loader, Loader] s)))"
proof -
  note r = insert_file_result [OF k, of f]
  have s1: "loader_step env s =
      s\<lparr>sink := fst (insert_file (tool env) (parse env f) (sink s)),
        attempted := attempted s @ [f],
        loaded := (if good env f then loaded s @ [f] else loaded s),
        errored := (if good env f then errored s else errored s @ [f]),
        loader := LFinally f p\<rparr>"
    using l i r by (simp add: loader_step_def Let_def)
  have "run env [Loader, Loader] s = loader_step env (loader_step env s)"
    by (simp add: run_def step_def)
  then show ?thesis
    unfolding s1 using i by (simp add: loader_step_def)
qed

text \<open>
  Claim C4, as stated, fails. When the listing repeats a name, the two staged items share
  one file. In the run below the Loader loads the first item and its \<^verbatim>\<open>finally\<close> clause
  removes the file; the insert of the second item raises, is caught and logged, and then
  \<^verbatim>\<open>os.remove\<close> in the \<^verbatim>\<open>finally\<close> clause raises \<^verbatim>\<open>FileNotFoundError\<close>, which nothing catches:
  the Loader leaves its loop with the staged file of 2022 in the queue, never ingested.
\<close>

theorem repeated_name_aborts_loader_counterexample:
  "errored (run example_env
       (replicate 10 Fetcher @ replicate 3 Loader @ replicate 5 Fetcher @ replicate 3 Loader)
       (init example_env None [''2020.csv.gz'', ''2020.csv.gz'', ''2022.csv.gz'']))
     = [''2020.csv.gz'']
   \<and> loader (run example_env
       (replicate 10 Fetcher @ replicate 3 Loader @ replicate 5 Fetcher @ replicate 3 Loader)
       (init example_env None [''2020.csv.gz'', ''2020.csv.gz'', ''2022.csv.gz''])) = LRaised
   \<and> attempted (run example_env
       (replicate 10 Fetcher @ replicate 3 Loader @ replicate 5 Fetcher @ replicate 3 Loader)
       (init example_env None [''2020.csv.gz'', ''2020.csv.gz'', ''2022.csv.gz'']))
     = [''2020.csv.gz'', ''2020.csv.gz'']
   \<and> file_queue (run example_env
       (replicate 10 Fetcher @ replicate 3 Loader @ replicate 5 Fetcher @ replicate 3 Loader)
       (init example_env None [''2020.csv.gz'', ''2020.csv.gz'', ''2022.csv.gz'']))
     = [StagedFile ''2022.csv.gz'' ''/tmp/stage/2022.csv.gz'']
   \<and> loader_step example_env (run example_env
       (replicate 10 Fetcher @ replicate 3 Loader @ replicate 5 Fetcher @ replicate 3 Loader)
       (init example_env None [''2020.csv.gz'', ''2020.csv.gz'', ''2022.csv.gz'']))
     = run example_env
       (replicate 10 Fetcher @ replicate 3 Loader @ replicate 5 Fetcher @ replicate 3 Loader)
       (init example_env None [''2020.csv.gz'', ''2020.csv.gz'', ''2022.csv.gz''])"
  by code_simp

text \<open>
  Claim C4, amended. When no two candidates are staged at the same file (in particular no
  name is listed twice), in every state of every run: the files logged as errors are
  exactly the attempted files whose insert raised, and the files loaded are exactly the
  others; every attempted file but the one in the \<^verbatim>\<open>finally\<close> clause has been reported
  finished, with its staged file removed; the loop is never left by an exception; a Loader
  about to insert a file is back at the poll two steps later, the staged file deleted, the
  file loaded or logged as an error; a run that ended without cancellation and without an
  error in the Fetcher has attempted every candidate; and the sink holds its initial rows
  followed by the rows of every loaded file.
\<close>

theorem load_error_is_isolated:
  assumes "distinct (map (stage_file env) files)" and "s = run env sched (init env snk files)"
  shows "loaded s = filter (good env) (attempted s)
         \<and> errored s = filter (\<lambda>f. \<not> good env f) (attempted s)
         \<and> attempted s = finished s @ closing (loader s)
         \<and> (\<forall>f \<in> set (finished s). stage_file env f \<in> set (removed s)
                                    \<and> stage_file env f \<notin> set (staging s))
         \<and> loader s \<noteq> LRaised
         \<and> (\<forall>f p. loader s = LLoad f p \<longrightarrow>
               loader (run env [Loader, Loader] s) = LGet
               \<and> f \<in> set (finished (run env [Loader, Loader] s))
               \<and> file_at env p \<notin> set (staging (run env [Loader, Loader] s))
               \<and> (if good env f then f \<in> set (loaded (run env [Loader, Loader] s))
                  else f \<in> set (errored (run env [Loader, Loader] s))))
         \<and> (loader s = LExit \<and> \<not> stop_event s \<and> fetcher_error s = None \<longrightarrow>
               attempted s = files)
         \<and> rows_of (sink s) = rows_of snk @ concat (map (\<lambda>f. rows_of (parse env f)) (loaded s))"
proof -
  have full: "full_inv env files snk s" using assms by (simp add: full_inv_run)
  then have pu: "push_inv env files s" and fi: "fifo_inv s" and st: "store_inv env s"
    and lo: "load_inv env snk s" and co: "complete_inv files s"
    by (simp_all add: full_inv_def pipeline_inv_def)
  have a: "loaded s = filter (good env) (attempted s)"
    "errored s = filter (\<lambda>f. \<not> good env f) (attempted s)"
    "attempted s = finished s @ closing (loader s)"
    "rows_of (sink s) = rows_of snk @ concat (map (\<lambda>f. rows_of (parse env f)) (loaded s))"
    using lo by (simp_all add: load_inv_def)
  have b: "\<forall>f \<in> set (finished s). stage_file env f \<in> set (removed s)
                                    \<and> stage_file env f \<notin> set (staging s)"
    using st by (auto simp: store_inv_def)
  have c: "loader s \<noteq> LRaised" using st by (simp add: store_inv_def)
  have d: "loader (run env [Loader, Loader] s) = LGet
               \<and> f \<in> set (finished (run env [Loader, Loader] s))
               \<and> file_at env p \<notin> set (staging (run env [Loader, Loader] s))
               \<and> (if good env f then f \<in> set (loaded (run env [Loader, Loader] s))
                  else f \<in> set (errored (run env [Loader, Loader] s)))"
    if l: "loader s = LLoad f p" for f p
  proof (rule load_then_finally [OF l])
    have "dir_exists s" using st l by (simp add: store_inv_def)
    then show "file_at env p \<in> set (staging s)" using st l by (auto simp: store_inv_def held_def)
    show "tool env = StormEvents \<longrightarrow> sink s \<noteq> None" using lo by (simp add: load_inv_def)
  qed
  have e: "attempted s = files"
    if "loader s = LExit \<and> \<not> stop_event s \<and> fetcher_error s = None"
  proof -
    have "attempted s = item_names (pushed s) \<and> fetcher s = FDone \<and> file_queue s = []"
      using exit_without_cancel [OF pu fi] that by blast
    then show ?thesis using co that by (simp add: complete_inv_def)
  qed
  show ?thesis using a b c d e by blast
qed

theorem load_error_is_isolated_witness:
  "distinct (map (stage_file example_env) [''2020.csv.gz'', ''2021.csv.gz'', ''2022.csv.gz''])
   \<and> \<not> good example_env ''2021.csv.gz''
   \<and> loader (run example_env
        (concat (replicate 3 (replicate 5 Fetcher @ [Loader, Loader, Loader]))
           @ [Fetcher, Fetcher, Loader])
        (init example_env None [''2020.csv.gz'', ''2021.csv.gz'', ''2022.csv.gz''])) = LExit
   \<and> attempted (run example_env
        (concat (replicate 3 (replicate 5 Fetcher @ [Loader, Loader, Loader]))
           @ [Fetcher, Fetcher, Loader])
        (init example_env None [''2020.csv.gz'', ''2021.csv.gz'', ''2022.csv.gz'']))
       = [''2020.csv.gz'', ''2021.csv.gz'', ''2022.csv.gz'']
   \<and> loaded (run example_env
        (concat (replicate 3 (replicate 5 Fetcher @ [Loader, Loader, Loader]))
           @ [Fetcher, Fetcher, Loader])
        (init example_env None [''2020.csv.gz'', ''2021.csv.gz'', ''2022.csv.gz'']))
       = [''2020.csv.gz'', ''2022.csv.gz'']
   \<and> errored (run example_env
        (concat (replicate 3 (replicate 5 Fetcher @ [Loader, Loader, Loader]))
           @ [Fetcher, Fetcher, Loader])
        (init example_env None [''2020.csv.gz'', ''2021.csv.gz'', ''2022.csv.gz'']))
       = [''2021.csv.gz'']"
proof -
  let ?files = "[''2020.csv.gz'', ''2021.csv.gz'', ''2022.csv.gz'']"
  let ?sched = "concat (replicate 3 (replicate 5 Fetcher @ [Loader, Loader, Loader]))
           @ [Fetcher, Fetcher, Loader]"
  let ?s = "run example_env ?sched (init example_env None ?files)"
  have d: "distinct (map (stage_file example_env) ?files)" by code_simp
  have g: "\<not> good example_env ''2021.csv.gz''" by code_simp
  have l: "loader ?s = LExit" "\<not> stop_event ?s" "fetcher_error ?s = None" by code_simp+
  note t = load_error_is_isolated [OF d refl, of ?sched None]
  have a: "attempted ?s = ?files" using t l by blast
  have "loaded ?s = filter (good example_env) (attempted ?s)" using t by blast
  also have "\<dots> = filter (good example_env) ?files" using a by simp
  also have "\<dots> = [''2020.csv.gz'', ''2022.csv.gz'']" by code_simp
  finally have lo: "loaded ?s = [''2020.csv.gz'', ''2022.csv.gz'']" .
  have "errored ?s = filter (\<lambda>f. \<not> good example_env f) (attempted ?s)" using t by blast
  also have "\<dots> = filter (\<lambda>f. \<not> good example_env f) ?files" using a by simp
  also have "\<dots> = [''2021.csv.gz'']" by code_simp
  finally have er: "errored ?s = [''2021.csv.gz'']" .
  show ?thesis using d g l a lo er by blast
qed

text \<open>
  Claim C9, as stated, fails. The Loader's poll times out on the empty queue; the Fetcher,
  past its second test of the stop event, puts the staged file of 2020 on the queue; the
  interrupt sets the stop event with that item in the queue; the Loader, in the handler of
  \<^verbatim>\<open>queue.Empty\<close>, reads the stop event and leaves the loop. The item was enqueued and is
  never loaded.
\<close>

theorem enqueued_item_discarded_counterexample:
  "file_queue (run example_env (Loader # replicate 5 Fetcher)
       (init example_env None [''2020.csv.gz'']))
     = [StagedFile ''2020.csv.gz'' ''/tmp/stage/2020.csv.gz'']
   \<and> loader (run example_env (Loader # replicate 5 Fetcher)
       (init example_env None [''2020.csv.gz''])) = LEmpty
   \<and> stop_event (run example_env (Loader # replicate 5 Fetcher @ [Interrupt])
       (init example_env None [''2020.csv.gz'']))
   \<and> loader (run example_env (Loader # replicate 5 Fetcher @ [Interrupt, Loader])
       (init example_env None [''2020.csv.gz''])) = LExit
   \<and> attempted (run example_env (Loader # replicate 5 Fetcher @ [Interrupt, Loader])
       (init example_env None [''2020.csv.gz''])) = []
   \<and> file_queue (run example_env (Loader # replicate 5 Fetcher @ [Interrupt, Loader])
       (init example_env None [''2020.csv.gz'']))
     = [StagedFile ''2020.csv.gz'' ''/tmp/stage/2020.csv.gz'']"
  by code_simp

text \<open>
  Claim C9, amended. A poll that finds a staged file at the head of the queue takes it,
  whatever the stop event says. The Loader leaves the loop only at the terminal marker, or
  from the handler of \<^verbatim>\<open>queue.Empty\<close> when it reads the stop event as set; and it enters that
  handler only from a poll of an empty queue. Every item taken from the queue is loaded: in
  every state of every run the files put on the queue are the files attempted, the file
  about to be inserted and the files still in the queue, in this order. (An item enqueued
  after the poll timed out and before the stop event is read stays in the queue unloaded.)
\<close>

theorem loader_poll_and_cancel:
  "(loader s = LGet \<and> file_queue s = StagedFile f p # q \<longrightarrow>
      loader_step env s = s\<lparr>file_queue := q, loader := LLoad f p\<rparr>)
   \<and> (loader s \<noteq> LExit \<and> loader (step env s a) = LExit \<longrightarrow>
        a = Loader \<and> ((loader s = LGet \<and> (\<exists>q'. file_queue s = EndOfFiles # q'))
                      \<or> (loader s = LEmpty \<and> stop_event s)))
   \<and> (loader s \<noteq> LEmpty \<and> loader (step env s a) = LEmpty \<longrightarrow>
        a = Loader \<and> loader s = LGet \<and> file_queue s = [])
   \<and> item_names (pushed (run env sched (init env snk files)))
       = attempted (run env sched (init env snk files))
         @ inflight (loader (run env sched (init env snk files)))
         @ item_names (file_queue (run env sched (init env snk files)))"
proof (intro conjI impI)
  assume "loader s = LGet \<and> file_queue s = StagedFile f p # q"
  then show "loader_step env s = s\<lparr>file_queue := q, loader := LLoad f p\<rparr>"
    by (simp add: loader_step_def)
next
  assume h: "loader s \<noteq> LExit \<and> loader (step env s a) = LExit"
  show "a = Loader" using h by (cases a) (auto simp: step_def)
  then have "loader (loader_step env s) = LExit" using h by (simp add: step_def)
  then show "(loader s = LGet \<and> (\<exists>q'. file_queue s = EndOfFiles # q'))
                      \<or> (loader s = LEmpty \<and> stop_event s)"
    using h
    by (cases "loader s")
       (auto simp: loader_step_def leave_with_def Let_def
             split: list.splits transfer_item.splits if_splits)
next
  assume h: "loader s \<noteq> LEmpty \<and> loader (step env s a) = LEmpty"
  show a: "a = Loader" using h by (cases a) (auto simp: step_def)
  have l: "loader (loader_step env s) = LEmpty" using h a by (simp add: step_def)
  then show "loader s = LGet" using h
    by (cases "loader s")
       (auto simp: loader_step_def leave_with_def Let_def
             split: list.splits transfer_item.splits if_splits)
  then show "file_queue s = []" using l
    by (auto simp: loader_step_def leave_with_def
             split: list.splits transfer_item.splits)
next
  let ?s = "run env sched (init env snk files)"
  have "fifo_inv ?s" by (rule fifo_inv_run)
  then obtain gone where "pushed ?s = gone @ file_queue ?s"
    "item_names gone = attempted ?s @ inflight (loader ?s)"
    unfolding fifo_inv_def by blast
  then show "item_names (pushed ?s)
       = attempted ?s @ inflight (loader ?s) @ item_names (file_queue ?s)"
    by simp
qed

theorem loader_poll_and_cancel_witness:
  "loader (run example_env (replicate 5 Fetcher @ [Interrupt])
       (init example_env None [''2020.csv.gz''])) = LGet
   \<and> stop_event (run example_env (replicate 5 Fetcher @ [Interrupt])
       (init example_env None [''2020.csv.gz'']))
   \<and> file_queue (run example_env (replicate 5 Fetcher @ [Interrupt])
       (init example_env None [''2020.csv.gz'']))
       = [StagedFile ''2020.csv.gz'' ''/tmp/stage/2020.csv.gz'']
   \<and> loader (loader_step example_env (run example_env (replicate 5 Fetcher @ [Interrupt])
       (init example_env None [''2020.csv.gz''])))
       = LLoad ''2020.csv.gz'' ''/tmp/stage/2020.csv.gz''
   \<and> loader (run example_env [Loader, Interrupt] (init example_env None [''2020.csv.gz'']))
       \<noteq> LExit
   \<and> loader (step example_env
        (run example_env [Loader, Interrupt] (init example_env None [''2020.csv.gz'']))
        Loader) = LExit
   \<and> stop_event (run example_env [Loader, Interrupt] (init example_env None [''2020.csv.gz'']))
   \<and> loader (init example_env None [''2020.csv.gz'']) \<noteq> LEmpty
   \<and> loader (step example_env (init example_env None [''2020.csv.gz'']) Loader) = LEmpty
   \<and> file_queue (init example_env None [''2020.csv.gz'']) = []"
proof -
  let ?i = "init example_env None [''2020.csv.gz'']"
  let ?s1 = "run example_env (replicate 5 Fetcher @ [Interrupt]) ?i"
  let ?s2 = "run example_env [Loader, Interrupt] ?i"
  have a: "loader ?s1 = LGet" "stop_event ?s1"
    "file_queue ?s1 = [StagedFile ''2020.csv.gz'' ''/tmp/stage/2020.csv.gz'']"
    by code_simp+
  have b: "loader ?s2 \<noteq> LExit" "loader (step example_env ?s2 Loader) = LExit"
    by code_simp+
  have c: "loader ?i \<noteq> LEmpty" "loader (step example_env ?i Loader) = LEmpty"
    by code_simp+
  have "loader_step example_env ?s1
          = ?s1\<lparr>file_queue := [], loader := LLoad ''2020.csv.gz'' ''/tmp/stage/2020.csv.gz''\<rparr>"
    using a loader_poll_and_cancel [of ?s1 "''2020.csv.gz''" "''/tmp/stage/2020.csv.gz''" "[]"
        example_env]
    by blast
  then have a': "loader (loader_step example_env ?s1)
       = LLoad ''2020.csv.gz'' ''/tmp/stage/2020.csv.gz''"
    by simp
  have e: "loader ?s2 = LEmpty" by code_simp
  have b': "stop_event ?s2"
    using b e loader_poll_and_cancel [of ?s2 "[]" "[]" "[]" example_env Loader "[]" None "[]"]
    by simp
  have c': "file_queue ?i = []"
    using c loader_poll_and_cancel [of ?i "[]" "[]" "[]" example_env Loader "[]" None "[]"]
    by blast
  show ?thesis using a a' b b' c c' by blast
qed

section \<open>The coordinator: truncation of the watermark period\<close>

text \<open>
  Claim C1, as stated, fails in the storm-events tool. The watermark year is
  \<^verbatim>\<open>max_date // 100\<close>, and both the truncation and the watermark filter stand behind
  \<^verbatim>\<open>if max_year:\<close>: a sink whose largest \<^verbatim>\<open>BEGIN_YEARMONTH\<close> is below 100 has the watermark
  year 0, nothing is deleted, and the file of year 0 stays in the candidate list. And the
  rows deleted are chosen by their column \<^verbatim>\<open>YEAR\<close>, not by the column the watermark is read
  from: a row with \<^verbatim>\<open>BEGIN_YEARMONTH\<close> 202412 and no \<^verbatim>\<open>YEAR\<close> makes 2024 the watermark year
  and survives the truncation, with the file of 2024 still a candidate. In the NCEI tool
  the since-year filter comes before the truncation: when it raises \<^verbatim>\<open>ValueError\<close> the run ends
  with the rows of the watermark year still in the sink.
\<close>

theorem watermark_rows_survive_counterexample:
  "storm_max_date (Some [\<lparr>BEGIN_YEARMONTH = Some 12, YEAR = Some 0, EVENT_ID = Some 1\<rparr>])
     = Some 12
   \<and> storm_prepare (Some [\<lparr>BEGIN_YEARMONTH = Some 12, YEAR = Some 0, EVENT_ID = Some 1\<rparr>])
       [''StormEvents_details-ftp_v1.0_d0000_c20250520.csv.gz''] None
     = (Some [\<lparr>BEGIN_YEARMONTH = Some 12, YEAR = Some 0, EVENT_ID = Some 1\<rparr>],
        [''StormEvents_details-ftp_v1.0_d0000_c20250520.csv.gz''])
   \<and> extract_year_from_filename ''StormEvents_details-ftp_v1.0_d0000_c20250520.csv.gz''
     = Some 0
   \<and> storm_max_date (Some [\<lparr>BEGIN_YEARMONTH = Some 202412, YEAR = None, EVENT_ID = Some 1\<rparr>])
     = Some 202412
   \<and> storm_period \<lparr>BEGIN_YEARMONTH = Some 202412, YEAR = None, EVENT_ID = Some 1\<rparr> = Some 2024
   \<and> storm_prepare (Some [\<lparr>BEGIN_YEARMONTH = Some 202412, YEAR = None, EVENT_ID = Some 1\<rparr>])
       [''StormEvents_details-ftp_v1.0_d2024_c20250520.csv.gz''] None
     = (Some [\<lparr>BEGIN_YEARMONTH = Some 202412, YEAR = None, EVENT_ID = Some 1\<rparr>],
        [''StormEvents_details-ftp_v1.0_d2024_c20250520.csv.gz''])
   \<and> ncei_max_date
        (Some [\<lparr>station = ''S'', row_date = Some \<lparr>year = 2020, month = 3, day = 1\<rparr>,
                element = ''TMAX'', data_value = Some 1\<rparr>])
     = Some \<lparr>year = 2020, month = 3, day = 1\<rparr>
   \<and> ncei_prepare
        (Some [\<lparr>station = ''S'', row_date = Some \<lparr>year = 2020, month = 3, day = 1\<rparr>,
                element = ''TMAX'', data_value = Some 1\<rparr>])
        [''2020.csv.gz'', ''latest.csv.gz''] (Some 2019)
     = (Some [\<lparr>station = ''S'', row_date = Some \<lparr>year = 2020, month = 3, day = 1\<rparr>,
                element = ''TMAX'', data_value = Some 1\<rparr>],
        Inl ValueError)"
  by code_simp

text \<open>
  Claim C1, amended. In every run that reaches the pipeline and whose sink has a watermark
  at start (in the NCEI tool the largest \<^verbatim>\<open>date\<close>; in the storm-events tool the largest
  \<^verbatim>\<open>BEGIN_YEARMONTH\<close>, with the watermark year \<^verbatim>\<open>// 100\<close> of it other than 0), the coordinator
  deletes, before the pipeline starts, exactly the rows whose year column (the year of
  \<^verbatim>\<open>date\<close>, respectively \<^verbatim>\<open>YEAR\<close>) equals the watermark year: at every moment of the run the
  sink holds the other rows it had at start, followed by the rows of the files loaded so
  far. In the storm-events tool these are the rows of the watermark period whenever every
  row's \<^verbatim>\<open>YEAR\<close> agrees with the year of its \<^verbatim>\<open>BEGIN_YEARMONTH\<close>.
\<close>

theorem watermark_period_truncated:
  "(tool env = NCEI \<and> ncei_max_date snk = Some d
      \<and> ncei_tool env snk listing since sched = Inr s \<longrightarrow>
        rows_of (sink s)
          = filter (\<lambda>r. \<not> in_year (year d) r) (rows_of snk)
            @ concat (map (\<lambda>f. rows_of (parse env f)) (loaded s)))
   \<and> (tool env' = StormEvents \<and> storm_max_date snk' = Some m \<and> m div 100 \<noteq> 0 \<longrightarrow>
        rows_of (sink (storm_tool env' snk' listing' since' sched'))
          = filter (\<lambda>r. YEAR r \<noteq> Some (m div 100)) (rows_of snk')
            @ concat (map (\<lambda>f. rows_of (parse env' f))
                        (loaded (storm_tool env' snk' listing' since' sched')))
        \<and> ((\<forall>r \<in> set (rows_of snk'). YEAR r = storm_period r) \<longrightarrow>
             rows_of (sink (storm_tool env' snk' listing' since' sched'))
               = filter (\<lambda>r. storm_period r \<noteq> Some (m div 100)) (rows_of snk')
                 @ concat (map (\<lambda>f. rows_of (parse env' f))
                             (loaded (storm_tool env' snk' listing' since' sched')))))"
proof (intro conjI impI)
  assume h: "tool env = NCEI \<and> ncei_max_date snk = Some d
      \<and> ncei_tool env snk listing since sched = Inr s"
  then obtain rows where r: "snk = Some rows" by (cases snk) auto
  obtain snk1 files where p: "ncei_prepare snk listing since = (snk1, Inr files)"
    and s: "s = run env sched (init env snk1 files)"
    using h by (auto simp: ncei_tool_def split: prod.splits sum.splits)
  have "snk1 = Some (filter (\<lambda>r. \<not> in_year (year d) r) rows)"
    using h r p
    by (auto simp: ncei_prepare_def ncei_truncate_rows Let_def
             split: option.splits sum.splits if_splits)
  moreover have "sink_inv env snk1 s" unfolding s by (rule sink_inv_run)
  ultimately show "rows_of (sink s)
          = filter (\<lambda>r. \<not> in_year (year d) r) (rows_of snk)
            @ concat (map (\<lambda>f. rows_of (parse env f)) (loaded s))"
    using r by (simp add: sink_inv_def rows_of_def)
next
  assume h: "tool env' = StormEvents \<and> storm_max_date snk' = Some m \<and> m div 100 \<noteq> 0"
  then obtain rows where r: "snk' = Some rows" by (cases snk') auto
  have m: "m \<noteq> 0" using h by auto
  have p: "fst (storm_prepare snk' listing' since')
             = Some (filter (\<lambda>r. YEAR r \<noteq> Some (m div 100)) rows)"
    using h r m
    by (simp add: storm_prepare_def storm_truncate_rows truthy_def Let_def)
  have "sink_inv env' (fst (storm_prepare snk' listing' since'))
          (storm_tool env' snk' listing' since' sched')"
    unfolding storm_tool_def by (simp add: sink_inv_run split: prod.splits)
  then show e: "rows_of (sink (storm_tool env' snk' listing' since' sched'))
          = filter (\<lambda>r. YEAR r \<noteq> Some (m div 100)) (rows_of snk')
            @ concat (map (\<lambda>f. rows_of (parse env' f))
                        (loaded (storm_tool env' snk' listing' since' sched')))"
    using p r by (simp add: sink_inv_def rows_of_def)
  assume c: "\<forall>r \<in> set (rows_of snk'). YEAR r = storm_period r"
  have "filter (\<lambda>r. YEAR r \<noteq> Some (m div 100)) (rows_of snk')
          = filter (\<lambda>r. storm_period r \<noteq> Some (m div 100)) (rows_of snk')"
    using c by (intro filter_cong) simp_all
  then show "rows_of (sink (storm_tool env' snk' listing' since' sched'))
               = filter (\<lambda>r. storm_period r \<noteq> Some (m div 100)) (rows_of snk')
                 @ concat (map (\<lambda>f. rows_of (parse env' f))
                             (loaded (storm_tool env' snk' listing' since' sched')))"
    using e by simp
qed

theorem watermark_period_truncated_witness:
  "ncei_max_date
      (Some [\<lparr>station = ''S'', row_date = Some \<lparr>year = 2019, month = 7, day = 4\<rparr>,
              element = ''TMAX'', data_value = Some 1\<rparr>,
             \<lparr>station = ''S'', row_date = Some \<lparr>year = 2020, month = 3, day = 1\<rparr>,
              element = ''TMAX'', data_value = Some 2\<rparr>])
     = Some \<lparr>year = 2020, month = 3, day = 1\<rparr>
   \<and> ncei_tool example_env
      (Some [\<lparr>station = ''S'', row_date = Some \<lparr>year = 2019, month = 7, day = 4\<rparr>,
              element = ''TMAX'', data_value = Some 1\<rparr>,
             \<lparr>station = ''S'', row_date = Some \<lparr>year = 2020, month = 3, day = 1\<rparr>,
              element = ''TMAX'', data_value = Some 2\<rparr>])
      [''2019.csv.gz'', ''2020.csv.gz'', ''2021.csv.gz''] None
      (replicate 5 Fetcher @ replicate 3 Loader)
     = Inr (run example_env (replicate 5 Fetcher @ replicate 3 Loader)
        (init example_env
           (Some [\<lparr>station = ''S'', row_date = Some \<lparr>year = 2019, month = 7, day = 4\<rparr>,
                   element = ''TMAX'', data_value = Some 1\<rparr>])
           [''2020.csv.gz'', ''2021.csv.gz'']))
   \<and> rows_of (sink (run example_env (replicate 5 Fetcher @ replicate 3 Loader)
        (init example_env
           (Some [\<lparr>station = ''S'', row_date = Some \<lparr>year = 2019, month = 7, day = 4\<rparr>,
                   element = ''TMAX'', data_value = Some 1\<rparr>])
           [''2020.csv.gz'', ''2021.csv.gz''])))
     = [\<lparr>station = ''S'', row_date = Some \<lparr>year = 2019, month = 7, day = 4\<rparr>,
         element = ''TMAX'', data_value = Some 1\<rparr>,
        \<lparr>station = ''S'', row_date = Some \<lparr>year = 2020, month = 1, day = 1\<rparr>,
         element = ''TMAX'', data_value = Some 1\<rparr>]
   \<and> storm_max_date
      (Some [\<lparr>BEGIN_YEARMONTH = Some 202301, YEAR = Some 2023, EVENT_ID = Some 1\<rparr>,
             \<lparr>BEGIN_YEARMONTH = Some 202412, YEAR = Some 2024, EVENT_ID = Some 2\<rparr>])
     = Some 202412
   \<and> YEAR \<lparr>BEGIN_YEARMONTH = Some 202301, YEAR = Some 2023, EVENT_ID = Some 1\<rparr>
       = storm_period \<lparr>BEGIN_YEARMONTH = Some 202301, YEAR = Some 2023, EVENT_ID = Some 1\<rparr>
   \<and> YEAR \<lparr>BEGIN_YEARMONTH = Some 202412, YEAR = Some 2024, EVENT_ID = Some 2\<rparr>
       = storm_period \<lparr>BEGIN_YEARMONTH = Some 202412, YEAR = Some 2024, EVENT_ID = Some 2\<rparr>
   \<and> rows_of (sink (storm_tool storm_example_env
        (Some [\<lparr>BEGIN_YEARMONTH = Some 202301, YEAR = Some 2023, EVENT_ID = Some 1\<rparr>,
               \<lparr>BEGIN_YEARMONTH = Some 202412, YEAR = Some 2024, EVENT_ID = Some 2\<rparr>])
        [''StormEvents_details-ftp_v1.0_d2024_c20250520.csv.gz''] None
        (replicate 5 Fetcher @ replicate 3 Loader)))
     = [\<lparr>BEGIN_YEARMONTH = Some 202301, YEAR = Some 2023, EVENT_ID = Some 1\<rparr>]"
proof -
  let ?r19 = "\<lparr>station = ''S'', row_date = Some \<lparr>year = 2019, month = 7, day = 4\<rparr>,
              element = ''TMAX'', data_value = Some 1\<rparr>"
  let ?r20 = "\<lparr>station = ''S'', row_date = Some \<lparr>year = 2020, month = 3, day = 1\<rparr>,
              element = ''TMAX'', data_value = Some 2\<rparr>"
  let ?new = "\<lparr>station = ''S'', row_date = Some \<lparr>year = 2020, month = 1, day = 1\<rparr>,
              element = ''TMAX'', data_value = Some 1\<rparr>"
  let ?snk = "Some [?r19, ?r20]"
  let ?listing = "[''2019.csv.gz'', ''2020.csv.gz'', ''2021.csv.gz'']"
  let ?sched = "replicate 5 Fetcher @ replicate 3 Loader"
  let ?s = "run example_env ?sched (init example_env (Some [?r19]) [''2020.csv.gz'', ''2021.csv.gz''])"
  let ?a = "\<lparr>BEGIN_YEARMONTH = Some 202301, YEAR = Some 2023, EVENT_ID = Some 1\<rparr>"
  let ?b = "\<lparr>BEGIN_YEARMONTH = Some 202412, YEAR = Some 2024, EVENT_ID = Some 2\<rparr>"
  let ?snk' = "Some [?a, ?b]"
  let ?listing' = "[''StormEvents_details-ftp_v1.0_d2024_c20250520.csv.gz'']"
  let ?t = "storm_tool storm_example_env ?snk' ?listing' None ?sched"
  have t: "tool example_env = NCEI" "tool storm_example_env = StormEvents"
    by (simp_all add: example_env_def storm_example_env_def)
  have w: "ncei_max_date ?snk = Some \<lparr>year = 2020, month = 3, day = 1\<rparr>" by code_simp
  have "ncei_prepare ?snk ?listing None = (Some [?r19], Inr [''2020.csv.gz'', ''2021.csv.gz''])"
    by code_simp
  then have n: "ncei_tool example_env ?snk ?listing None ?sched = Inr ?s"
    by (simp add: ncei_tool_def)
  have l: "loaded ?s = [''2020.csv.gz'']" by code_simp
  have k: "filter (\<lambda>r. \<not> in_year 2020 r) (rows_of ?snk) = [?r19]" by code_simp
  have q: "rows_of (parse example_env ''2020.csv.gz'') = [?new]" by code_simp
  have w': "storm_max_date ?snk' = Some 202412" by code_simp
  have c: "YEAR ?a = storm_period ?a" "YEAR ?b = storm_period ?b" by code_simp+
  have "storm_prepare ?snk' ?listing' None = (Some [?a], ?listing')" by code_simp
  then have e: "?t = run storm_example_env ?sched (init storm_example_env (Some [?a]) ?listing')"
    by (simp add: storm_tool_def)
  have "loaded (run storm_example_env ?sched (init storm_example_env (Some [?a]) ?listing'))
          = [''StormEvents_details-ftp_v1.0_d2024_c20250520.csv.gz'']"
    by code_simp
  then have l': "loaded ?t = [''StormEvents_details-ftp_v1.0_d2024_c20250520.csv.gz'']"
    using e by simp
  have k': "filter (\<lambda>r. storm_period r \<noteq> Some 2024) (rows_of ?snk') = [?a]" by code_simp
  have q': "rows_of (parse storm_example_env
              ''StormEvents_details-ftp_v1.0_d2024_c20250520.csv.gz'') = []"
    by code_simp
  note wp = watermark_period_truncated [of example_env ?snk "\<lparr>year = 2020, month = 3, day = 1\<rparr>"
      ?listing None ?sched ?s storm_example_env ?snk' 202412 ?listing' None ?sched]
  have a: "rows_of (sink ?s) = [?r19, ?new]"
    using t w n l k q wp by simp
  have c': "\<forall>r \<in> set (rows_of ?snk'). YEAR r = storm_period r"
    using c by (simp add: rows_of_def)
  have h: "tool storm_example_env = StormEvents \<and> storm_max_date ?snk' = Some 202412
      \<and> (202412 :: int) div 100 \<noteq> 0"
    using t w' by simp
  have "rows_of (sink ?t)
          = filter (\<lambda>r. storm_period r \<noteq> Some (202412 div 100)) (rows_of ?snk')
            @ concat (map (\<lambda>f. rows_of (parse storm_example_env f)) (loaded ?t))"
    using wp h c' by blast
  then have b: "rows_of (sink ?t) = [?a]"
    using l' k' q' by simp
  show ?thesis using w n a w' c b by blast
qed

section \<open>Order of candidates, pushes and loads\<close>











lemma keep_from_sorted: "keep_from key b fs = Inr r \<Longrightarrow> sorted fs \<Longrightarrow> sorted r"
  by (auto dest!: keep_from_Inr intro: sorted_wrt_filter)






end
